theory Spec2Isabelle
  imports Main "HOL-Library.Sublist" "HOL-Library.Multiset" "HOL-Library.AList"
    "HOL-Library.List_Lexorder" "HOL-Library.Char_ord"
begin

section \<open>Paths, matchers and the rule map\<close>

text \<open>
  The tool works on the absolute path \<^verbatim>\<open>Path(args.directory).resolve()\<close> and on paths
  built from it.  A \<^verbatim>\<open>pathlib.Path\<close> is modelled by the list of its components after
  the anchor: the components of \<^verbatim>\<open>p.parts\<close> without the leading \<^verbatim>\<open>/\<close> for an absolute
  path, all of \<^verbatim>\<open>p.parts\<close> for a relative one.  \<^verbatim>\<open>p / name\<close> is \<open>p @ [name]\<close>.
  Symbolic links are not modelled.
\<close>

type_synonym path = "string list"

text \<open>
  The exceptions that leave a function of the program.  \<open>OSError\<close> stands for the class
  with its subclasses, such as \<^verbatim>\<open>PermissionError\<close> and \<^verbatim>\<open>IsADirectoryError\<close>;
  \<open>ValueError\<close> is what \<^verbatim>\<open>relative_to\<close> and \<^verbatim>\<open>list.remove\<close> raise; \<open>UnicodeDecodeError\<close>
  comes from reading a file that is no UTF-8 text; \<open>PatternError\<close> stands for the
  exception with which the pattern library rejects an ill-formed line; \<open>EOFError\<close> comes
  from \<^verbatim>\<open>input\<close> at the end of standard input.
\<close>

datatype error = OSError | ValueError | EOFError | UnicodeDecodeError | PatternError

text \<open>\<^verbatim>\<open>p.relative_to(base)\<close> raises \<^verbatim>\<open>ValueError\<close> unless \<open>base\<close> is a prefix of \<open>p\<close>.\<close>

definition relative_to :: "path \<Rightarrow> path \<Rightarrow> error + path" where
  "relative_to p base = (if prefix base p then Inr (drop (length base) p) else Inl ValueError)"

text \<open>\<^verbatim>\<open>p.parent\<close> and \<^verbatim>\<open>p.name\<close>; the anchor and the empty relative path are their own parent.\<close>

definition parent :: "path \<Rightarrow> path" where
  "parent p = butlast p"

definition name :: "path \<Rightarrow> string" where
  "name p = (if p = [] then [] else last p)"

text \<open>\<^verbatim>\<open>len(p.parts)\<close> of an absolute path counts the anchor.\<close>

definition parts_len :: "path \<Rightarrow> nat" where
  "parts_len p = Suc (length p)"

fun slash_join :: "string list \<Rightarrow> string" where
  "slash_join [] = []"
| "slash_join [x] = x"
| "slash_join (x # y # ys) = x @ ''/'' @ slash_join (y # ys)"

text \<open>\<^verbatim>\<open>str(p)\<close> of a relative path (the empty one prints as a dot) and of an absolute one.\<close>

definition str_path :: "path \<Rightarrow> string" where
  "str_path p = (if p = [] then ''.'' else slash_join p)"

definition str_abs :: "path \<Rightarrow> string" where
  "str_abs p = ''/'' @ slash_join p"

text \<open>
  The compiled matcher of one ignore-rule file (\<^verbatim>\<open>pathspec.PathSpec\<close>) is opaque: all the
  program uses of it is \<^verbatim>\<open>match_file\<close>, a predicate on the printed path.  The rule map is
  the dictionary from directory to matcher, kept as an association list.
\<close>

type_synonym pathspec = "string \<Rightarrow> bool"

type_synonym rulemap = "(path \<times> pathspec) list"

text \<open>\<^verbatim>\<open>PathSpec.from_lines\<close> compiles the lines of a file into a matcher, or raises.\<close>

type_synonym compiler = "string list \<Rightarrow> error + pathspec"

section \<open>The classifier\<close>

text \<open>
  The test the source repeats at each scope: if \<open>d\<close> is a key of the rule map, match the
  path relative to \<open>d\<close>.
\<close>

definition scope_matches :: "rulemap \<Rightarrow> path \<Rightarrow> path \<Rightarrow> error + bool" where
  "scope_matches specs d file_path =
     (case map_of specs d of
        None \<Rightarrow> Inr False
      | Some spec \<Rightarrow>
          (case relative_to file_path d of
             Inl e \<Rightarrow> Inl e
           | Inr relative_path \<Rightarrow> Inr (spec (str_path relative_path))))"

text \<open>
  The \<^verbatim>\<open>for part in relative_to_root.parent.parts\<close> loop of \<^verbatim>\<open>is_file_ignored\<close>.  The result
  is \<open>(True, _)\<close> when the loop returned \<^verbatim>\<open>True\<close>, and \<open>(False, d)\<close> when it ran to its end
  with \<^verbatim>\<open>current_check_dir = d\<close>.
\<close>

fun file_loop :: "rulemap \<Rightarrow> path \<Rightarrow> path \<Rightarrow> string list \<Rightarrow> error + (bool \<times> path)" where
  "file_loop specs file_path current_check_dir [] = Inr (False, current_check_dir)"
| "file_loop specs file_path current_check_dir (part # parts) =
     (case scope_matches specs current_check_dir file_path of
        Inl e \<Rightarrow> Inl e
      | Inr True \<Rightarrow> Inr (True, current_check_dir)
      | Inr False \<Rightarrow> file_loop specs file_path (current_check_dir @ [part]) parts)"

definition is_file_ignored :: "path \<Rightarrow> path \<Rightarrow> rulemap \<Rightarrow> error + bool" where
  "is_file_ignored file_path root_directory specs =
     (case relative_to file_path root_directory of
        Inl e \<Rightarrow> Inl e
      | Inr relative_to_root \<Rightarrow>
          (case file_loop specs file_path root_directory (parent relative_to_root) of
             Inl e \<Rightarrow> Inl e
           | Inr (True, _) \<Rightarrow> Inr True
           | Inr (False, current_check_dir) \<Rightarrow>
               (case scope_matches specs current_check_dir file_path of
                  Inl e \<Rightarrow> Inl e
                | Inr True \<Rightarrow> Inr True
                | Inr False \<Rightarrow>
                    (case map_of specs (parent file_path) of
                       None \<Rightarrow> Inr False
                     | Some spec \<Rightarrow> Inr (spec (name file_path))))))"

text \<open>
  The loop of \<^verbatim>\<open>is_directory_ignored\<close>: at each scope the directory is tested with and
  without a trailing slash.
\<close>

fun dir_loop :: "rulemap \<Rightarrow> path \<Rightarrow> path \<Rightarrow> string list \<Rightarrow> error + bool" where
  "dir_loop specs dir_path current_check_dir [] = Inr False"
| "dir_loop specs dir_path current_check_dir (part # parts) =
     (case map_of specs current_check_dir of
        None \<Rightarrow> dir_loop specs dir_path (current_check_dir @ [part]) parts
      | Some spec \<Rightarrow>
          (case relative_to dir_path current_check_dir of
             Inl e \<Rightarrow> Inl e
           | Inr relative_path \<Rightarrow>
               if spec (str_path relative_path @ ''/'') \<or> spec (str_path relative_path)
               then Inr True
               else dir_loop specs dir_path (current_check_dir @ [part]) parts))"

definition is_directory_ignored :: "path \<Rightarrow> path \<Rightarrow> rulemap \<Rightarrow> error + bool" where
  "is_directory_ignored dir_path root_directory specs =
     (case relative_to dir_path root_directory of
        Inl e \<Rightarrow> Inl e
      | Inr relative_to_root \<Rightarrow> dir_loop specs dir_path root_directory relative_to_root)"

text \<open>
  What the two operations compute, written without the loop: the scopes consulted for a
  path \<open>root @ rel\<close> are the directories \<open>root @ take k rel\<close>, and at each of them the
  matcher sees the rest of the path, \<open>drop k rel\<close>.
\<close>

definition file_scope_hit :: "rulemap \<Rightarrow> path \<Rightarrow> string list \<Rightarrow> nat \<Rightarrow> bool" where
  "file_scope_hit specs root rel k =
     (case map_of specs (root @ take k rel) of
        None \<Rightarrow> False
      | Some spec \<Rightarrow> spec (str_path (drop k rel)))"

definition dir_scope_hit :: "rulemap \<Rightarrow> path \<Rightarrow> string list \<Rightarrow> nat \<Rightarrow> bool" where
  "dir_scope_hit specs root rel k =
     (case map_of specs (root @ take k rel) of
        None \<Rightarrow> False
      | Some spec \<Rightarrow> spec (str_path (drop k rel) @ ''/'') \<or> spec (str_path (drop k rel)))"

section \<open>The file system and \<^verbatim>\<open>os.walk\<close>\<close>

text \<open>
  The file system is a tree.  A file carries its content: its lines, or that it is no
  UTF-8 text, or that it cannot be opened for reading.  A directory carries whether it can
  be searched, and its entries in the order in which the operating system lists them.  In
  a directory that cannot be searched the names of the entries can still be listed, but
  no entry can be examined or opened.  Directories that cannot be listed are not modelled.
  An absolute path is resolved from the top of the tree.
\<close>

datatype content = Lines "string list" | Undecodable | Unreadable

datatype node = File content | Dir bool "(string \<times> node) list"

text \<open>
  \<^verbatim>\<open>os.stat\<close>: the node at a path; \<open>None\<close> when a component of the path is missing or is
  no directory; \<^verbatim>\<open>PermissionError\<close>, an \<^verbatim>\<open>OSError\<close>, when a directory on the way cannot be
  searched.
\<close>

fun stat :: "node \<Rightarrow> path \<Rightarrow> error + node option" where
  "stat t [] = Inr (Some t)"
| "stat (Dir searchable entries) (n # ns) =
     (if searchable
      then (case map_of entries n of None \<Rightarrow> Inr None | Some c \<Rightarrow> stat c ns)
      else Inl OSError)"
| "stat (File c) (n # ns) = Inr None"

fun is_dir :: "node \<Rightarrow> bool" where
  "is_dir (Dir searchable entries) = True"
| "is_dir (File c) = False"

text \<open>
  \<^verbatim>\<open>Path.exists\<close> and \<^verbatim>\<open>Path.is_dir\<close> answer \<^verbatim>\<open>False\<close> for a path that is not there and let
  every other error of \<^verbatim>\<open>os.stat\<close> through.
\<close>

definition path_exists :: "node \<Rightarrow> path \<Rightarrow> error + bool" where
  "path_exists fs p =
     (case stat fs p of Inl e \<Rightarrow> Inl e | Inr None \<Rightarrow> Inr False | Inr (Some t) \<Rightarrow> Inr True)"

definition path_is_dir :: "node \<Rightarrow> path \<Rightarrow> error + bool" where
  "path_is_dir fs p =
     (case stat fs p of Inl e \<Rightarrow> Inl e | Inr None \<Rightarrow> Inr False | Inr (Some t) \<Rightarrow> Inr (is_dir t))"

text \<open>
  \<^verbatim>\<open>open(p, "r", encoding="utf-8")\<close> followed by \<^verbatim>\<open>readlines()\<close>: opening fails with an
  \<^verbatim>\<open>OSError\<close> for a path that cannot be reached, is not there, is a directory or cannot be
  read; reading fails with \<^verbatim>\<open>UnicodeDecodeError\<close> for a file that is no UTF-8 text.
\<close>

definition read_lines :: "node \<Rightarrow> path \<Rightarrow> error + string list" where
  "read_lines fs p =
     (case stat fs p of
        Inl e \<Rightarrow> Inl e
      | Inr None \<Rightarrow> Inl OSError
      | Inr (Some (Dir searchable entries)) \<Rightarrow> Inl OSError
      | Inr (Some (File Unreadable)) \<Rightarrow> Inl OSError
      | Inr (Some (File Undecodable)) \<Rightarrow> Inl UnicodeDecodeError
      | Inr (Some (File (Lines lines))) \<Rightarrow> Inr lines)"

text \<open>
  \<^verbatim>\<open>os.scandir\<close> as \<^verbatim>\<open>os.walk\<close> uses it: the entries of a directory, and \<open>None\<close> for every
  error, which \<^verbatim>\<open>os.walk\<close> ignores.
\<close>

definition listdir :: "node \<Rightarrow> path \<Rightarrow> (string \<times> node) list option" where
  "listdir fs p =
     (case stat fs p of
        Inr (Some (Dir searchable entries)) \<Rightarrow> Some entries
      | _ \<Rightarrow> None)"

text \<open>The invariant of a real file system: the entries of a directory have distinct names.\<close>

fun wf_node :: "node \<Rightarrow> bool" where
  "wf_node (File c) = True"
| "wf_node (Dir searchable entries) =
     (distinct (map fst entries) \<and> (\<forall>e \<in> set entries. wf_node (snd e)))"

definition dirnames :: "(string \<times> node) list \<Rightarrow> string list" where
  "dirnames entries = map fst (filter (\<lambda>e. is_dir (snd e)) entries)"

definition filenames :: "(string \<times> node) list \<Rightarrow> string list" where
  "filenames entries = map fst (filter (\<lambda>e. \<not> is_dir (snd e)) entries)"

text \<open>A \<^verbatim>\<open>for\<close> loop over a list whose body may raise: the first error ends the loop.\<close>

fun fold_err :: "('a \<Rightarrow> 's \<Rightarrow> error + 's) \<Rightarrow> 'a list \<Rightarrow> 's \<Rightarrow> error + 's" where
  "fold_err f [] s = Inr s"
| "fold_err f (x # xs) s = (case f x s of Inl e \<Rightarrow> Inl e | Inr s' \<Rightarrow> fold_err f xs s')"

lemma fold_err_cong [fundef_cong]:
  "xs = ys \<Longrightarrow> s = t \<Longrightarrow> (\<And>x s. x \<in> set ys \<Longrightarrow> f x s = g x s)
   \<Longrightarrow> fold_err f xs s = fold_err g ys t"
proof (induction ys arbitrary: xs s t)
  case Nil
  then show ?case by simp
next
  case (Cons y ys)
  then show ?case by (auto split: sum.splits)
qed

lemma stat_append:
  "stat t (p @ q)
   = (case stat t p of Inl e \<Rightarrow> Inl e | Inr None \<Rightarrow> Inr None | Inr (Some c) \<Rightarrow> stat c q)"
proof (induction t p rule: stat.induct)
  case (1 t)
  show ?case by simp
next
  case (2 searchable entries n ns)
  then show ?case by (simp split: option.splits)
next
  case (3 c n ns)
  show ?case by simp
qed

lemma size_child: "map_of entries n = Some c \<Longrightarrow> size c < size (Dir searchable entries)"
proof (induction entries)
  case Nil
  then show ?case by simp
next
  case (Cons e es)
  then show ?case by (cases e) (auto split: if_splits)
qed

text \<open>
  \<^verbatim>\<open>os.walk(top)\<close>, top-down, as a loop with a body: for each directory it lists the
  entries, hands the body the directory's path, the names of its sub-directories and the
  names of its other entries, and then walks into the sub-directories whose names the
  body left in its list, in that order.  The body returns the list of names as it left it
  (the source edits it in place) and the new state of the loop's variables.  A path that
  cannot be listed yields nothing: \<^verbatim>\<open>os.walk\<close> ignores the error of listing it.
\<close>

function os_walk ::
  "(path \<Rightarrow> string list \<Rightarrow> string list \<Rightarrow> 's \<Rightarrow> error + (string list \<times> 's))
   \<Rightarrow> node \<Rightarrow> path \<Rightarrow> 's \<Rightarrow> error + 's" where
  "os_walk body fs top_dir s =
     (case listdir fs top_dir of
        None \<Rightarrow> Inr s
      | Some entries \<Rightarrow>
          (case body top_dir (dirnames entries) (filenames entries) s of
             Inl e \<Rightarrow> Inl e
           | Inr (dirs, s') \<Rightarrow>
               fold_err (\<lambda>dirname. os_walk body fs (top_dir @ [dirname])) dirs s'))"
  by pat_completeness auto
termination
proof (relation "measure (\<lambda>(body, fs, top_dir, s).
                   case stat fs top_dir of Inr (Some t) \<Rightarrow> Suc (size t) | _ \<Rightarrow> 0)")
  show "wf (measure (\<lambda>(body, fs, top_dir, s).
              case stat fs top_dir of Inr (Some t) \<Rightarrow> Suc (size t) | _ \<Rightarrow> 0))"
    by simp
next
  fix body :: "path \<Rightarrow> string list \<Rightarrow> string list \<Rightarrow> 's \<Rightarrow> error + (string list \<times> 's)"
  fix fs top_dir dirname entries and s s' :: 's
  assume "listdir fs top_dir = Some entries"
  then obtain searchable where top: "stat fs top_dir = Inr (Some (Dir searchable entries))"
    by (auto simp: listdir_def split: sum.splits option.splits node.splits)
  show "((body, fs, top_dir @ [dirname], s'), body, fs, top_dir, s)
       \<in> measure (\<lambda>(body, fs, top_dir, s).
            case stat fs top_dir of Inr (Some t) \<Rightarrow> Suc (size t) | _ \<Rightarrow> 0)"
    using size_child[of entries dirname _ searchable]
    by (auto simp: top stat_append split: option.splits)
qed

declare os_walk.simps [simp del]

section \<open>The rule collector\<close>

text \<open>
  \<^verbatim>\<open>PathSpec.from_lines\<close> is the parameter \<open>from_lines\<close>; it returns the matcher or raises.
  The existence test, the opening and reading of the file, and the compilation can each
  raise, and nothing here catches the exception.
\<close>

definition load_gitignore_patterns :: "compiler \<Rightarrow> node \<Rightarrow> path \<Rightarrow> error + pathspec option" where
  "load_gitignore_patterns from_lines fs directory =
     (let gitignore_path = directory @ [''.gitignore''] in
      case path_exists fs gitignore_path of
        Inl e \<Rightarrow> Inl e
      | Inr False \<Rightarrow> Inr None
      | Inr True \<Rightarrow>
          (case read_lines fs gitignore_path of
             Inl e \<Rightarrow> Inl e
           | Inr lines \<Rightarrow>
               (case from_lines lines of
                  Inl e \<Rightarrow> Inl e
                | Inr spec \<Rightarrow> Inr (Some spec))))"

definition collect_body ::
  "compiler \<Rightarrow> node \<Rightarrow> path \<Rightarrow> string list \<Rightarrow> string list \<Rightarrow> rulemap
   \<Rightarrow> error + (string list \<times> rulemap)" where
  "collect_body from_lines fs current_path directories files gitignore_specs =
     (case load_gitignore_patterns from_lines fs current_path of
        Inl e \<Rightarrow> Inl e
      | Inr None \<Rightarrow> Inr (directories, gitignore_specs)
      | Inr (Some spec) \<Rightarrow> Inr (directories, AList.update current_path spec gitignore_specs))"

definition collect_all_gitignore_specs :: "compiler \<Rightarrow> node \<Rightarrow> path \<Rightarrow> error + rulemap" where
  "collect_all_gitignore_specs from_lines fs root_directory =
     os_walk (collect_body from_lines fs) fs root_directory []"

section \<open>The tree scanner\<close>

record scan_state =
  ignored_files :: "path list"
  ignored_directories :: "path list"
  skip_directories :: "path set"

text \<open>\<^verbatim>\<open>xs.remove(x)\<close> removes the first occurrence and raises when there is none.\<close>

definition list_remove :: "'a \<Rightarrow> 'a list \<Rightarrow> error + 'a list" where
  "list_remove x xs = (if x \<in> set xs then Inr (remove1 x xs) else Inl ValueError)"

text \<open>One round of the loop over \<^verbatim>\<open>directories\<close>; the state carries \<^verbatim>\<open>dirs_to_remove\<close>.\<close>

definition check_directory ::
  "path \<Rightarrow> path \<Rightarrow> rulemap \<Rightarrow> string \<Rightarrow> scan_state \<times> string list
   \<Rightarrow> error + (scan_state \<times> string list)" where
  "check_directory current_path root_directory specs dir_name acc =
     (case acc of (st, dirs_to_remove) \<Rightarrow>
        (case is_directory_ignored (current_path @ [dir_name]) root_directory specs of
           Inl e \<Rightarrow> Inl e
         | Inr True \<Rightarrow>
             Inr (st\<lparr>ignored_directories := ignored_directories st @ [current_path @ [dir_name]],
                     skip_directories := insert (current_path @ [dir_name]) (skip_directories st)\<rparr>,
                  dirs_to_remove @ [dir_name])
         | Inr False \<Rightarrow> Inr (st, dirs_to_remove)))"

definition check_file ::
  "path \<Rightarrow> path \<Rightarrow> rulemap \<Rightarrow> string \<Rightarrow> scan_state \<Rightarrow> error + scan_state" where
  "check_file current_path root_directory specs file_name st =
     (case is_file_ignored (current_path @ [file_name]) root_directory specs of
        Inl e \<Rightarrow> Inl e
      | Inr True \<Rightarrow> Inr (st\<lparr>ignored_files := ignored_files st @ [current_path @ [file_name]]\<rparr>)
      | Inr False \<Rightarrow> Inr st)"

text \<open>The body of the loop over \<^verbatim>\<open>os.walk(root_directory)\<close> in \<^verbatim>\<open>find_ignored_files\<close>.\<close>

definition scan_body ::
  "path \<Rightarrow> rulemap \<Rightarrow> path \<Rightarrow> string list \<Rightarrow> string list \<Rightarrow> scan_state
   \<Rightarrow> error + (string list \<times> scan_state)" where
  "scan_body root_directory specs current_path directories files st =
     (let directories1 =
            (if ''.git'' \<in> set directories then remove1 ''.git'' directories else directories)
      in if current_path \<in> skip_directories st then Inr ([], st)
         else
           (case fold_err (check_directory current_path root_directory specs)
                          directories1 (st, []) of
              Inl e \<Rightarrow> Inl e
            | Inr (st1, dirs_to_remove) \<Rightarrow>
                (case fold_err list_remove dirs_to_remove directories1 of
                   Inl e \<Rightarrow> Inl e
                 | Inr directories2 \<Rightarrow>
                     (case fold_err (check_file current_path root_directory specs) files st1 of
                        Inl e \<Rightarrow> Inl e
                      | Inr st2 \<Rightarrow> Inr (directories2, st2)))))"

text \<open>
  The decision pass for a given rule map: lines 156 to 191 of the source, from the three
  empty accumulators to the two lists returned.
\<close>

definition decision_pass :: "path \<Rightarrow> rulemap \<Rightarrow> node \<Rightarrow> error + (path list \<times> path list)" where
  "decision_pass root_directory specs fs =
     (case os_walk (scan_body root_directory specs) fs root_directory
             \<lparr>ignored_files = [], ignored_directories = [], skip_directories = {}\<rparr> of
        Inl e \<Rightarrow> Inl e
      | Inr st \<Rightarrow> Inr (ignored_files st, ignored_directories st))"

definition find_ignored_files ::
  "compiler \<Rightarrow> node \<Rightarrow> path \<Rightarrow> error + (path list \<times> path list)" where
  "find_ignored_files from_lines fs root_directory =
     (case collect_all_gitignore_specs from_lines fs root_directory of
        Inl e \<Rightarrow> Inl e
      | Inr gitignore_specs \<Rightarrow>
          if gitignore_specs = [] then Inr ([], [])
          else decision_pass root_directory gitignore_specs fs)"

section \<open>Reporting and the deletion planner\<close>

text \<open>
  What the program does to the outside world, in order: a line printed to standard output
  or to the error stream, and a call of one of the two removal primitives.
\<close>

datatype event = Stdout string | Stderr string | Unlink path | Rmtree path

text \<open>
  \<^verbatim>\<open>Path.unlink\<close> and \<^verbatim>\<open>shutil.rmtree\<close> belong to the platform: each is a parameter that
  takes the path and the state of the world, and returns the new state together with
  \<open>None\<close> on success or the message of the \<^verbatim>\<open>OSError\<close> it raised.
\<close>

type_synonym 'w removal = "path \<Rightarrow> 'w \<Rightarrow> string option \<times> 'w"

record 'w del_state =
  deleted :: int
  world :: 'w
  trace :: "event list"

definition delete_file ::
  "'w removal \<Rightarrow> path \<Rightarrow> bool \<Rightarrow> path \<Rightarrow> 'w del_state \<Rightarrow> error + 'w del_state" where
  "delete_file unlink root_directory dry_run file_path st =
     (case relative_to file_path root_directory of
        Inl e \<Rightarrow> Inl e
      | Inr relative_path \<Rightarrow>
          if dry_run
          then Inr (st\<lparr>deleted := deleted st + 1,
                       trace := trace st @ [Stdout (''Deleted file: '' @ str_path relative_path)]\<rparr>)
          else
            (case unlink file_path (world st) of
               (None, w) \<Rightarrow>
                 Inr (st\<lparr>deleted := deleted st + 1, world := w,
                         trace := trace st @ [Unlink file_path,
                           Stdout (''Deleted file: '' @ str_path relative_path)]\<rparr>)
             | (Some message, w) \<Rightarrow>
                 Inr (st\<lparr>world := w,
                         trace := trace st @ [Unlink file_path,
                           Stderr (''Error deleting '' @ str_path relative_path @ '': ''
                                   @ message)]\<rparr>)))"

definition delete_directory ::
  "'w removal \<Rightarrow> path \<Rightarrow> bool \<Rightarrow> path \<Rightarrow> 'w del_state \<Rightarrow> error + 'w del_state" where
  "delete_directory rmtree root_directory dry_run dir_path st =
     (case relative_to dir_path root_directory of
        Inl e \<Rightarrow> Inl e
      | Inr relative_path \<Rightarrow>
          if dry_run
          then Inr (st\<lparr>deleted := deleted st + 1,
                       trace := trace st
                         @ [Stdout (''Deleted directory: '' @ str_path relative_path @ ''/'')]\<rparr>)
          else
            (case rmtree dir_path (world st) of
               (None, w) \<Rightarrow>
                 Inr (st\<lparr>deleted := deleted st + 1, world := w,
                         trace := trace st @ [Rmtree dir_path,
                           Stdout (''Deleted directory: '' @ str_path relative_path @ ''/'')]\<rparr>)
             | (Some message, w) \<Rightarrow>
                 Inr (st\<lparr>world := w,
                         trace := trace st @ [Rmtree dir_path,
                           Stderr (''Error deleting '' @ str_path relative_path @ ''/: ''
                                   @ message)]\<rparr>)))"

text \<open>
  \<^verbatim>\<open>sorted(ignored_directories, key=lambda p: len(p.parts), reverse=True)\<close>: a stable sort,
  deepest first, directories of equal depth in their order in the input.
\<close>

definition sorted_directories :: "path list \<Rightarrow> path list" where
  "sorted_directories dir_paths = sort_key (\<lambda>p. - int (parts_len p)) dir_paths"

definition delete_items ::
  "'w removal \<Rightarrow> 'w removal \<Rightarrow> path list \<Rightarrow> path list \<Rightarrow> path \<Rightarrow> bool \<Rightarrow> 'w
   \<Rightarrow> error + ((int \<times> int) \<times> 'w \<times> event list)" where
  "delete_items unlink rmtree file_paths dir_paths root_directory dry_run w =
     (case fold_err (delete_file unlink root_directory dry_run) file_paths
             \<lparr>deleted = 0, world = w, trace = []\<rparr> of
        Inl e \<Rightarrow> Inl e
      | Inr st1 \<Rightarrow>
          (case fold_err (delete_directory rmtree root_directory dry_run)
                  (sorted_directories dir_paths)
                  \<lparr>deleted = 0, world = world st1, trace = trace st1\<rparr> of
             Inl e \<Rightarrow> Inl e
           | Inr st2 \<Rightarrow> Inr ((deleted st1, deleted st2), world st2, trace st2)))"

text \<open>Decimal numerals, for the counts in the report.\<close>

fun show_nat :: "nat \<Rightarrow> string" where
  "show_nat n =
     (if n < 10 then [''0123456789'' ! n]
      else show_nat (n div 10) @ [''0123456789'' ! (n mod 10)])"

declare show_nat.simps [simp del]

definition show_int :: "int \<Rightarrow> string" where
  "show_int i = (if i < 0 then ''-'' @ show_nat (nat (- i)) else show_nat (nat i))"

definition quote :: string where
  "quote = [CHR 0x27]"

text \<open>The lines \<^verbatim>\<open>display_ignored_items\<close> prints, the two blocks sorted by path.\<close>

definition display_line :: "string \<Rightarrow> string \<Rightarrow> path \<Rightarrow> path \<Rightarrow> event list \<Rightarrow> error + event list" where
  "display_line label ending root_directory item_path out =
     (case relative_to item_path root_directory of
        Inl e \<Rightarrow> Inl e
      | Inr relative_path \<Rightarrow> Inr (out @ [Stdout (label @ str_path relative_path @ ending)]))"

definition display_ignored_items :: "path list \<Rightarrow> path list \<Rightarrow> path \<Rightarrow> error + event list" where
  "display_ignored_items file_paths dir_paths root_directory =
     (let total_items = length file_paths + length dir_paths in
      if total_items = 0 then Inr [Stdout ''No ignored files or directories found.'']
      else
        (case (if dir_paths \<noteq> []
               then fold_err (display_line ''  [DIR]  '' ''/'' root_directory) (sort dir_paths)
                      [Stdout [], Stdout (''Found '' @ show_nat total_items @ '' ignored item(s):''),
                       Stdout [], Stdout ''Directories:'']
               else Inr [Stdout [], Stdout (''Found '' @ show_nat total_items @ '' ignored item(s):''),
                         Stdout []]) of
           Inl e \<Rightarrow> Inl e
         | Inr out1 \<Rightarrow>
             (case (if file_paths \<noteq> []
                    then fold_err (display_line ''  [FILE] '' [] root_directory) (sort file_paths)
                           (out1 @ [Stdout [], Stdout ''Files:''])
                    else Inr out1) of
                Inl e \<Rightarrow> Inl e
              | Inr out2 \<Rightarrow> Inr (out2 @ [Stdout []]))))"

text \<open>
  \<^verbatim>\<open>confirm_deletion\<close> reads lines of standard input until one is an answer.  Each round
  \<^verbatim>\<open>input\<close> writes the prompt and then reads a line; at the end of the input it raises
  \<^verbatim>\<open>EOFError\<close>, the prompt already written.  The result is the answer, or the exception,
  together with what was printed.  \<^verbatim>\<open>str.strip\<close> and \<^verbatim>\<open>str.lower\<close> belong to the language:
  they are the parameters \<open>str_strip\<close> and \<open>str_lower\<close>.
\<close>

definition prompt :: string where
  "prompt = ''Do you want to delete these items? (yes/no): ''"

fun confirm_deletion ::
  "(string \<Rightarrow> string) \<Rightarrow> (string \<Rightarrow> string) \<Rightarrow> string list \<Rightarrow> (error + bool) \<times> event list" where
  "confirm_deletion str_strip str_lower [] = (Inl EOFError, [Stdout prompt])"
| "confirm_deletion str_strip str_lower (line # rest) =
     (let response = str_lower (str_strip line) in
      if response = ''yes'' \<or> response = ''y'' then (Inr True, [Stdout prompt])
      else if response = ''no'' \<or> response = ''n'' then (Inr False, [Stdout prompt])
      else
        (case confirm_deletion str_strip str_lower rest of
           (answer, out) \<Rightarrow>
             (answer,
              Stdout prompt
              # Stdout (''Please enter '' @ quote @ ''yes'' @ quote @ '' or '' @ quote @ ''no''
                        @ quote @ ''.'')
              # out)))"

section \<open>The entry point\<close>

text \<open>
  \<^verbatim>\<open>main\<close> from line 334 on, after the command line is parsed: \<open>args_directory\<close> is the
  resolved absolute path.  The result records the exit code, or the exception that left
  \<^verbatim>\<open>main\<close>; whether \<^verbatim>\<open>find_ignored_files\<close> was called and what came of it; the file
  system at the end; and the events up to the return or the exception.
\<close>

record args =
  args_directory :: path
  args_dry_run :: bool
  args_yes :: bool

record run =
  exit_code :: "error + int"
  scan :: "(error + (path list \<times> path list)) option"
  fs_after :: node
  events :: "event list"

definition main ::
  "node removal \<Rightarrow> node removal \<Rightarrow> compiler \<Rightarrow> (string \<Rightarrow> string) \<Rightarrow> (string \<Rightarrow> string)
   \<Rightarrow> args \<Rightarrow> string list \<Rightarrow> node \<Rightarrow> run" where
  "main unlink rmtree from_lines str_strip str_lower args stdin fs =
     (let root_directory = args_directory args in
      case path_exists fs root_directory of
        Inl e \<Rightarrow> \<lparr>exit_code = Inl e, scan = None, fs_after = fs, events = []\<rparr>
      | Inr False \<Rightarrow>
          \<lparr>exit_code = Inr 1, scan = None, fs_after = fs,
           events = [Stderr (''Error: Directory '' @ quote @ str_abs root_directory @ quote
                             @ '' does not exist.'')]\<rparr>
      | Inr True \<Rightarrow>
      (case path_is_dir fs root_directory of
        Inl e \<Rightarrow> \<lparr>exit_code = Inl e, scan = None, fs_after = fs, events = []\<rparr>
      | Inr False \<Rightarrow>
          \<lparr>exit_code = Inr 1, scan = None, fs_after = fs,
           events = [Stderr (''Error: '' @ quote @ str_abs root_directory @ quote
                             @ '' is not a directory.'')]\<rparr>
      | Inr True \<Rightarrow>
      (case path_exists fs (root_directory @ [''.gitignore'']) of
        Inl e \<Rightarrow> \<lparr>exit_code = Inl e, scan = None, fs_after = fs, events = []\<rparr>
      | Inr False \<Rightarrow>
          \<lparr>exit_code = Inr 1, scan = None, fs_after = fs,
           events = [Stderr (''Error: No .gitignore found in '' @ quote
                             @ str_abs root_directory @ quote @ ''.'')]\<rparr>
      | Inr True \<Rightarrow>
            (let out1 = [Stdout (''Scanning directory: '' @ str_abs root_directory)] in
             case find_ignored_files from_lines fs root_directory of
               Inl e \<Rightarrow> \<lparr>exit_code = Inl e, scan = Some (Inl e), fs_after = fs, events = out1\<rparr>
             | Inr (file_paths, dir_paths) \<Rightarrow>
                 (case display_ignored_items file_paths dir_paths root_directory of
                    Inl e \<Rightarrow>
                      \<lparr>exit_code = Inl e, scan = Some (Inr (file_paths, dir_paths)),
                       fs_after = fs, events = out1\<rparr>
                  | Inr out2 \<Rightarrow>
                      if file_paths = [] \<and> dir_paths = []
                      then \<lparr>exit_code = Inr 0, scan = Some (Inr (file_paths, dir_paths)),
                            fs_after = fs, events = out1 @ out2\<rparr>
                      else if args_dry_run args
                      then \<lparr>exit_code = Inr 0, scan = Some (Inr (file_paths, dir_paths)),
                            fs_after = fs,
                            events = out1 @ out2
                              @ [Stdout ''Dry run mode - no files were deleted.'']\<rparr>
                      else
                        (case (if args_yes args then (Inr True, [])
                               else confirm_deletion str_strip str_lower stdin) of
                           (Inl e, out3) \<Rightarrow>
                             \<lparr>exit_code = Inl e, scan = Some (Inr (file_paths, dir_paths)),
                              fs_after = fs, events = out1 @ out2 @ out3\<rparr>
                         | (Inr False, out3) \<Rightarrow>
                             \<lparr>exit_code = Inr 0, scan = Some (Inr (file_paths, dir_paths)),
                              fs_after = fs,
                              events = out1 @ out2 @ out3 @ [Stdout ''Deletion cancelled.'']\<rparr>
                         | (Inr True, out3) \<Rightarrow>
                             (case delete_items unlink rmtree file_paths dir_paths
                                     root_directory False fs of
                                Inl e \<Rightarrow>
                                  \<lparr>exit_code = Inl e,
                                   scan = Some (Inr (file_paths, dir_paths)),
                                   fs_after = fs, events = out1 @ out2 @ out3\<rparr>
                              | Inr ((deleted_files, deleted_dirs), fs', out4) \<Rightarrow>
                                  \<lparr>exit_code = Inr 0,
                                   scan = Some (Inr (file_paths, dir_paths)),
                                   fs_after = fs',
                                   events = out1 @ out2 @ out3 @ out4
                                     @ [Stdout [],
                                        Stdout (''Deleted '' @ show_int deleted_files
                                                @ '' file(s) and '' @ show_int deleted_dirs
                                                @ '' directory(ies).'')]\<rparr>)))))))"

section \<open>Sample instances of the parameters\<close>

text \<open>
  For concrete instances: the matcher compiled from a list of lines that matches a path
  exactly when the path is one of the lines, with the compiler that always returns it and
  the compiler that rejects every file; and \<^verbatim>\<open>strip\<close> and \<^verbatim>\<open>lower\<close> on ASCII text.
\<close>

definition match_exactly :: "string list \<Rightarrow> pathspec" where
  "match_exactly lines s = (s \<in> set lines)"

definition compile_exactly :: compiler where
  "compile_exactly lines = Inr (match_exactly lines)"





section \<open>Properties of the classifier\<close>

lemma scope_matches_below:
  "scope_matches specs (root @ pre) (root @ pre @ post) = Inr (file_scope_hit specs root (pre @ post) (length pre))"
  by (simp add: scope_matches_def relative_to_def file_scope_hit_def split: option.splits)

lemma file_loop_miss:
  "\<forall>j<length parts. \<not> file_scope_hit specs root (pre @ parts @ rest) (length pre + j)
   \<Longrightarrow> file_loop specs (root @ pre @ parts @ rest) (root @ pre) parts = Inr (False, root @ pre @ parts)"
proof (induction parts arbitrary: pre)
  case Nil
  show ?case by simp
next
  case (Cons part parts)
  have sm: "scope_matches specs (root @ pre) (root @ pre @ (part # parts) @ rest) = Inr False"
    using Cons.prems scope_matches_below[of specs root pre "(part # parts) @ rest"] by force
  have "\<forall>j<length parts. \<not> file_scope_hit specs root ((pre @ [part]) @ parts @ rest) (length (pre @ [part]) + j)"
    using Cons.prems by force
  from Cons.IH[OF this] sm show ?case by simp
qed

lemma file_loop_hit:
  "\<exists>j<length parts. file_scope_hit specs root (pre @ parts @ rest) (length pre + j)
   \<Longrightarrow> \<exists>d. file_loop specs (root @ pre @ parts @ rest) (root @ pre) parts = Inr (True, d)"
proof (induction parts arbitrary: pre)
  case Nil
  then show ?case by simp
next
  case (Cons part parts)
  have sm: "scope_matches specs (root @ pre) (root @ pre @ (part # parts) @ rest)
            = Inr (file_scope_hit specs root (pre @ (part # parts) @ rest) (length pre))"
    by (rule scope_matches_below)
  show ?case
  proof (cases "file_scope_hit specs root (pre @ (part # parts) @ rest) (length pre)")
    case True
    with sm show ?thesis by simp
  next
    case False
    from Cons.prems obtain j where j: "j < Suc (length parts)"
      "file_scope_hit specs root (pre @ (part # parts) @ rest) (length pre + j)" by auto
    with False have "j \<noteq> 0" by (cases j) auto
    then obtain i where "j = Suc i" by (cases j) auto
    with j have "\<exists>j<length parts. file_scope_hit specs root ((pre @ [part]) @ parts @ rest) (length (pre @ [part]) + j)"
      by auto
    from Cons.IH[OF this] sm False show ?thesis by simp
  qed
qed

lemma is_file_ignored_below:
  assumes "rel \<noteq> []"
  shows "is_file_ignored (root @ rel) root specs
         = Inr (list_ex (file_scope_hit specs root rel) [0..<length rel])"
proof -
  obtain ds f where rel: "rel = ds @ [f]"
    using assms by (metis append_butlast_last_id)
  have par: "parent (root @ rel) = root @ ds" "name (root @ rel) = f" "parent rel = ds"
    by (auto simp: parent_def name_def rel butlast_append)
  have last_scope: "scope_matches specs (root @ ds) (root @ rel) = Inr (file_scope_hit specs root rel (length ds))"
    using scope_matches_below[of specs root ds "[f]"] by (simp add: rel)
  have third: "(case map_of specs (root @ ds) of None \<Rightarrow> False | Some spec \<Rightarrow> spec f)
               = file_scope_hit specs root rel (length ds)"
    by (simp add: file_scope_hit_def rel str_path_def split: option.splits)
  have ex: "list_ex (file_scope_hit specs root rel) [0..<length rel]
            = ((\<exists>j<length ds. file_scope_hit specs root rel j) \<or> file_scope_hit specs root rel (length ds))"
    by (auto simp: list_ex_iff rel less_Suc_eq)
  have rt: "relative_to (root @ rel) root = Inr rel" by (simp add: relative_to_def)
  show ?thesis
  proof (cases "\<exists>j<length ds. file_scope_hit specs root rel j")
    case True
    with file_loop_hit[of ds specs root "[]" "[f]"] obtain d where
      "file_loop specs (root @ rel) root ds = Inr (True, d)" by (auto simp: rel)
    with True show ?thesis by (simp add: is_file_ignored_def rt par ex)
  next
    case False
    with file_loop_miss[of ds specs root "[]" "[f]"] have
      "file_loop specs (root @ rel) root ds = Inr (False, root @ ds)" by (auto simp: rel)
    with False third show ?thesis
      by (cases "file_scope_hit specs root rel (length ds)")
         (auto simp add: is_file_ignored_def rt par ex last_scope split: option.splits)
  qed
qed

lemma dir_loop_below:
  "dir_loop specs (root @ pre @ parts) (root @ pre) parts
   = Inr (\<exists>j<length parts. dir_scope_hit specs root (pre @ parts) (length pre + j))"
proof (induction parts arbitrary: pre)
  case Nil
  show ?case by simp
next
  case (Cons part parts)
  have rt: "relative_to (root @ pre @ part # parts) (root @ pre) = Inr (part # parts)"
    by (simp add: relative_to_def)
  have split_ex: "(\<exists>j<length (part # parts). dir_scope_hit specs root (pre @ part # parts) (length pre + j))
     = (dir_scope_hit specs root (pre @ part # parts) (length pre)
        \<or> (\<exists>j<length parts. dir_scope_hit specs root (pre @ part # parts) (Suc (length pre + j))))"
    by (auto simp: less_Suc_eq_0_disj)
  from Cons.IH[of "pre @ [part]"] have ih:
    "dir_loop specs (root @ pre @ part # parts) (root @ pre @ [part]) parts
     = Inr (\<exists>j<length parts. dir_scope_hit specs root (pre @ part # parts) (Suc (length pre + j)))"
    by simp
  show ?case
    unfolding split_ex
    by (cases "map_of specs (root @ pre)") (auto simp: rt ih dir_scope_hit_def)
qed

lemma is_directory_ignored_below:
  "is_directory_ignored (root @ rel) root specs
   = Inr (list_ex (dir_scope_hit specs root rel) [0..<length rel])"
  using dir_loop_below[of specs root "[]" rel]
  by (simp add: is_directory_ignored_def relative_to_def list_ex_iff Bex_def)

lemma file_loop_first:
  "j < length parts \<Longrightarrow> file_scope_hit specs root (pre @ parts @ rest) (length pre + j)
   \<Longrightarrow> \<forall>i<j. \<not> file_scope_hit specs root (pre @ parts @ rest) (length pre + i)
   \<Longrightarrow> file_loop specs (root @ pre @ parts @ rest) (root @ pre) parts
       = Inr (True, root @ pre @ take j parts)"
proof (induction parts arbitrary: pre j)
  case Nil
  then show ?case by simp
next
  case (Cons part parts)
  have sm: "scope_matches specs (root @ pre) (root @ pre @ (part # parts) @ rest)
            = Inr (file_scope_hit specs root (pre @ (part # parts) @ rest) (length pre))"
    by (rule scope_matches_below)
  show ?case
  proof (cases j)
    case 0
    with Cons.prems sm show ?thesis by simp
  next
    case (Suc i)
    with Cons.prems have miss:
      "\<not> file_scope_hit specs root (pre @ (part # parts) @ rest) (length pre)"
      by force
    have a: "i < length parts" using Cons.prems Suc by simp
    have b: "file_scope_hit specs root ((pre @ [part]) @ parts @ rest) (length (pre @ [part]) + i)"
      using Cons.prems Suc by simp
    have c: "\<forall>k<i. \<not> file_scope_hit specs root ((pre @ [part]) @ parts @ rest)
                         (length (pre @ [part]) + k)"
    proof (intro allI impI)
      fix k assume "k < i"
      then have "Suc k < j" using Suc by simp
      with Cons.prems(3)
      show "\<not> file_scope_hit specs root ((pre @ [part]) @ parts @ rest) (length (pre @ [part]) + k)"
        by force
    qed
    from Cons.IH[OF a b c] sm miss Suc show ?thesis by simp
  qed
qed

text \<open>
  C1.  For a file strictly below the root, \<^verbatim>\<open>is_file_ignored\<close> returns normally, and it
  answers \<open>True\<close> exactly when one of the scopes on the chain from the root down to the
  file's parent directory (the directories \<open>root @ take k rel\<close> for \<open>k < length rel\<close>) is a
  key of the rule map whose matcher matches the file's path relative to that scope; with no
  such scope the file is not ignored.  The walk is root to leaf and stops at the first
  matching scope: the loop returns there.
\<close>

theorem is_file_ignored_first_match:
  "rel \<noteq> [] \<Longrightarrow>
   is_file_ignored (root @ rel) root specs
     = Inr (list_ex (file_scope_hit specs root rel) [0..<length rel])
   \<and> (\<forall>k<length rel - 1.
        file_scope_hit specs root rel k \<and> (\<forall>i<k. \<not> file_scope_hit specs root rel i)
        \<longrightarrow> file_loop specs (root @ rel) root (parent rel) = Inr (True, root @ take k rel))"
proof (intro conjI allI impI)
  assume "rel \<noteq> []"
  then show "is_file_ignored (root @ rel) root specs
             = Inr (list_ex (file_scope_hit specs root rel) [0..<length rel])"
    by (rule is_file_ignored_below)
next
  fix k
  assume ne: "rel \<noteq> []" and k: "k < length rel - 1"
    and hit: "file_scope_hit specs root rel k \<and> (\<forall>i<k. \<not> file_scope_hit specs root rel i)"
  from ne have rel: "rel = butlast rel @ [last rel]" by simp
  have "file_loop specs (root @ [] @ butlast rel @ [last rel]) (root @ []) (butlast rel)
        = Inr (True, root @ [] @ take k (butlast rel))"
    using k hit rel by (intro file_loop_first) auto
  moreover have "take k (butlast rel) = take k rel"
    using k by (simp add: take_butlast)
  ultimately show "file_loop specs (root @ rel) root (parent rel) = Inr (True, root @ take k rel)"
    using rel by (simp add: parent_def)
qed

theorem is_file_ignored_first_match_witness:
  "[''a'', ''f.log''] \<noteq> []
   \<and> is_file_ignored ([''proj''] @ [''a'', ''f.log'']) [''proj'']
        [([''proj''], match_exactly [''a/f.log'']), ([''proj'', ''a''], match_exactly [''f.log''])]
       = Inr True
   \<and> file_loop [([''proj''], match_exactly [''a/f.log'']), ([''proj'', ''a''], match_exactly [''f.log''])]
        ([''proj''] @ [''a'', ''f.log'']) [''proj''] (parent [''a'', ''f.log''])
       = Inr (True, [''proj''])"
proof -
  have ne: "[''a'', ''f.log''] \<noteq> []" by simp
  note inst = is_file_ignored_first_match[OF ne, of "[''proj'']"
      "[([''proj''], match_exactly [''a/f.log'']), ([''proj'', ''a''], match_exactly [''f.log''])]"]
  have hit0: "file_scope_hit
      [([''proj''], match_exactly [''a/f.log'']), ([''proj'', ''a''], match_exactly [''f.log''])]
      [''proj''] [''a'', ''f.log''] 0"
    by (simp add: file_scope_hit_def match_exactly_def str_path_def)
  have first: "is_file_ignored ([''proj''] @ [''a'', ''f.log'']) [''proj'']
        [([''proj''], match_exactly [''a/f.log'']), ([''proj'', ''a''], match_exactly [''f.log''])]
       = Inr True"
    using inst hit0 by (simp add: upt_rec)
  have second: "file_loop
        [([''proj''], match_exactly [''a/f.log'']), ([''proj'', ''a''], match_exactly [''f.log''])]
        ([''proj''] @ [''a'', ''f.log'']) [''proj''] (parent [''a'', ''f.log''])
       = Inr (True, [''proj''])"
    using inst[THEN conjunct2, rule_format, of 0] hit0 by simp
  from ne first second show ?thesis by blast
qed

section \<open>What the scan computes\<close>

definition dir_ignored :: "rulemap \<Rightarrow> path \<Rightarrow> path \<Rightarrow> bool" where
  "dir_ignored specs root p =
     (case relative_to p root of
        Inl e \<Rightarrow> False
      | Inr rel \<Rightarrow> list_ex (dir_scope_hit specs root rel) [0..<length rel])"

definition file_ignored :: "rulemap \<Rightarrow> path \<Rightarrow> path \<Rightarrow> bool" where
  "file_ignored specs root p =
     (case relative_to p root of
        Inl e \<Rightarrow> False
      | Inr rel \<Rightarrow> list_ex (file_scope_hit specs root rel) [0..<length rel])"

definition extend :: "scan_state \<Rightarrow> path list \<Rightarrow> path list \<Rightarrow> scan_state" where
  "extend st fs ds =
     st\<lparr>ignored_files := ignored_files st @ fs,
        ignored_directories := ignored_directories st @ ds,
        skip_directories := skip_directories st \<union> set ds\<rparr>"

lemma extend_Nil [simp]: "extend st [] [] = st"
  by (simp add: extend_def)

lemma extend_extend [simp]: "extend (extend st f1 d1) f2 d2 = extend st (f1 @ f2) (d1 @ d2)"
  by (simp add: extend_def Un_assoc)

lemma extend_sel [simp]:
  "ignored_files (extend st fs ds) = ignored_files st @ fs"
  "ignored_directories (extend st fs ds) = ignored_directories st @ ds"
  "skip_directories (extend st fs ds) = skip_directories st \<union> set ds"
  by (simp_all add: extend_def)

lemma is_directory_ignored_prefix:
  "prefix root p \<Longrightarrow> is_directory_ignored p root specs = Inr (dir_ignored specs root p)"
  using is_directory_ignored_below[of root _ specs]
  by (auto simp: prefix_def dir_ignored_def relative_to_def)

lemma is_file_ignored_prefix:
  "prefix root cur \<Longrightarrow> is_file_ignored (cur @ [n]) root specs = Inr (file_ignored specs root (cur @ [n]))"
proof -
  assume "prefix root cur"
  then obtain rel where cur: "cur = root @ rel" by (auto simp: prefix_def)
  have "is_file_ignored (root @ (rel @ [n])) root specs
        = Inr (list_ex (file_scope_hit specs root (rel @ [n])) [0..<length (rel @ [n])])"
    by (rule is_file_ignored_below) simp
  then show ?thesis by (simp add: cur file_ignored_def relative_to_def)
qed

lemma check_directories_loop:
  assumes "prefix root cur"
  shows "fold_err (check_directory cur root specs) ds (st, rm)
         = Inr (extend st [] (map (\<lambda>n. cur @ [n]) (filter (\<lambda>n. dir_ignored specs root (cur @ [n])) ds)),
                rm @ filter (\<lambda>n. dir_ignored specs root (cur @ [n])) ds)"
proof (induction ds arbitrary: st rm)
  case Nil
  show ?case by simp
next
  case (Cons d ds)
  have pre: "prefix root (cur @ [d])" using assms by (auto simp: prefix_def)
  show ?case
  proof (cases "dir_ignored specs root (cur @ [d])")
    case True
    have step: "check_directory cur root specs d (st, rm) = Inr (extend st [] [cur @ [d]], rm @ [d])"
      by (simp add: check_directory_def is_directory_ignored_prefix[OF pre] True extend_def)
    show ?thesis by (simp add: step Cons.IH True)
  next
    case False
    have step: "check_directory cur root specs d (st, rm) = Inr (st, rm)"
      by (simp add: check_directory_def is_directory_ignored_prefix[OF pre] False)
    show ?thesis by (simp add: step Cons.IH False)
  qed
qed

lemma check_files_loop:
  assumes "prefix root cur"
  shows "fold_err (check_file cur root specs) fs st
         = Inr (extend st (map (\<lambda>n. cur @ [n]) (filter (\<lambda>n. file_ignored specs root (cur @ [n])) fs)) [])"
proof (induction fs arbitrary: st)
  case Nil
  show ?case by simp
next
  case (Cons f fs)
  show ?case
  proof (cases "file_ignored specs root (cur @ [f])")
    case True
    have step: "check_file cur root specs f st = Inr (extend st [cur @ [f]] [])"
      by (simp add: check_file_def is_file_ignored_prefix[OF assms] True extend_def)
    show ?thesis by (simp add: step Cons.IH True)
  next
    case False
    have step: "check_file cur root specs f st = Inr st"
      by (simp add: check_file_def is_file_ignored_prefix[OF assms] False)
    show ?thesis by (simp add: step Cons.IH False)
  qed
qed

lemma remove_loop_gen:
  "\<forall>x \<in> set pre. \<not> P x \<Longrightarrow>
   fold_err list_remove (filter P ys) (pre @ ys) = Inr (pre @ filter (\<lambda>x. \<not> P x) ys)"
proof (induction ys arbitrary: pre)
  case Nil
  show ?case by simp
next
  case (Cons y ys)
  show ?case
  proof (cases "P y")
    case True
    then have "y \<notin> set pre" using Cons.prems by auto
    then have "remove1 y (pre @ y # ys) = pre @ ys" by (simp add: remove1_append)
    then show ?thesis using True Cons.IH[OF Cons.prems] by (simp add: list_remove_def)
  next
    case False
    then have "\<forall>x \<in> set (pre @ [y]). \<not> P x" using Cons.prems by auto
    from Cons.IH[OF this] False show ?thesis by simp
  qed
qed

lemma remove_loop: "fold_err list_remove (filter P xs) xs = Inr (filter (\<lambda>x. \<not> P x) xs)"
  using remove_loop_gen[of "[]" P xs] by simp

definition visible_dirs :: "(string \<times> node) list \<Rightarrow> string list" where
  "visible_dirs entries =
     (if ''.git'' \<in> set (dirnames entries) then remove1 ''.git'' (dirnames entries)
      else dirnames entries)"

lemma scan_body_eq:
  assumes "prefix root cur" and "cur \<notin> skip_directories st"
  shows "scan_body root specs cur (dirnames entries) (filenames entries) st
         = Inr (filter (\<lambda>n. \<not> dir_ignored specs root (cur @ [n])) (visible_dirs entries),
                extend st
                  (map (\<lambda>n. cur @ [n]) (filter (\<lambda>n. file_ignored specs root (cur @ [n])) (filenames entries)))
                  (map (\<lambda>n. cur @ [n]) (filter (\<lambda>n. dir_ignored specs root (cur @ [n])) (visible_dirs entries))))"
  using assms(2)
  by (simp add: scan_body_def Let_def visible_dirs_def check_directories_loop[OF assms(1)]
        remove_loop check_files_loop[OF assms(1)])


definition kept_entry :: "rulemap \<Rightarrow> path \<Rightarrow> path \<Rightarrow> string \<times> node \<Rightarrow> bool" where
  "kept_entry specs root cur e =
     (is_dir (snd e) \<and> fst e \<noteq> ''.git'' \<and> \<not> dir_ignored specs root (cur @ [fst e]))"

text \<open>
  The walk enters the sub-directories the body kept, if the directory can be searched;
  if it cannot, listing them fails, and \<^verbatim>\<open>os.walk\<close> passes over the failure.
\<close>

definition entered :: "rulemap \<Rightarrow> path \<Rightarrow> path \<Rightarrow> bool \<Rightarrow> string \<times> node \<Rightarrow> bool" where
  "entered specs root cur searchable e = (searchable \<and> kept_entry specs root cur e)"

fun scan_dirs :: "rulemap \<Rightarrow> path \<Rightarrow> path \<Rightarrow> node \<Rightarrow> path list" where
  "scan_dirs specs root cur (File c) = []"
| "scan_dirs specs root cur (Dir searchable entries) =
     map (\<lambda>n. cur @ [n]) (filter (\<lambda>n. dir_ignored specs root (cur @ [n])) (visible_dirs entries))
     @ concat (map (\<lambda>e. scan_dirs specs root (cur @ [fst e]) (snd e))
                   (filter (entered specs root cur searchable) entries))"

fun scan_files :: "rulemap \<Rightarrow> path \<Rightarrow> path \<Rightarrow> node \<Rightarrow> path list" where
  "scan_files specs root cur (File c) = []"
| "scan_files specs root cur (Dir searchable entries) =
     map (\<lambda>n. cur @ [n]) (filter (\<lambda>n. file_ignored specs root (cur @ [n])) (filenames entries))
     @ concat (map (\<lambda>e. scan_files specs root (cur @ [fst e]) (snd e))
                   (filter (entered specs root cur searchable) entries))"

lemma visible_dirs_distinct:
  assumes "distinct (map fst entries)"
  shows "visible_dirs entries = map fst (filter (\<lambda>e. is_dir (snd e) \<and> fst e \<noteq> ''.git'') entries)"
proof -
  have d: "distinct (dirnames entries)"
    using assms by (simp add: dirnames_def distinct_map_filter)
  have "visible_dirs entries = filter (\<lambda>n. n \<noteq> ''.git'') (dirnames entries)"
  proof (cases "''.git'' \<in> set (dirnames entries)")
    case True
    have "removeAll ''.git'' ns = filter (\<lambda>n. n \<noteq> ''.git'') ns" for ns :: "string list"
      by (induction ns) auto
    then have "removeAll ''.git'' (dirnames entries)
               = filter (\<lambda>n. n \<noteq> ''.git'') (dirnames entries)" .
    with True d show ?thesis
      by (simp add: visible_dirs_def distinct_remove1_removeAll)
  next
    case False
    then have "filter (\<lambda>n. n \<noteq> ''.git'') (dirnames entries) = dirnames entries"
      by (intro filter_True) auto
    with False show ?thesis by (simp add: visible_dirs_def)
  qed
  also have "\<dots> = map fst (filter (\<lambda>e. is_dir (snd e) \<and> fst e \<noteq> ''.git'') entries)"
    by (simp add: dirnames_def filter_map comp_def conj_commute)
  finally show ?thesis .
qed

lemma kept_names:
  assumes "distinct (map fst entries)"
  shows "filter (\<lambda>n. \<not> dir_ignored specs root (cur @ [n])) (visible_dirs entries)
         = map fst (filter (kept_entry specs root cur) entries)"
  by (simp add: visible_dirs_distinct[OF assms] filter_map comp_def kept_entry_def[abs_def] conj_ac)

lemma scan_dirs_ignored:
  "p \<in> set (scan_dirs specs root cur t) \<Longrightarrow> dir_ignored specs root p"
  by (induction specs root cur t arbitrary: p rule: scan_dirs.induct) auto

definition skip_ok :: "rulemap \<Rightarrow> path \<Rightarrow> scan_state \<Rightarrow> bool" where
  "skip_ok specs root st = (\<forall>p \<in> skip_directories st. dir_ignored specs root p)"

lemma skip_ok_extend:
  "skip_ok specs root st \<Longrightarrow> \<forall>p \<in> set ds. dir_ignored specs root p
   \<Longrightarrow> skip_ok specs root (extend st fs ds)"
  by (auto simp: skip_ok_def)

lemma walk_children:
  assumes step: "\<And>e st. e \<in> set es \<Longrightarrow> skip_ok specs root st \<Longrightarrow>
            f (fst e) st = Inr (extend st (scan_files specs root (cur @ [fst e]) (snd e))
                                         (scan_dirs specs root (cur @ [fst e]) (snd e)))"
    and ok: "skip_ok specs root st"
  shows "fold_err f (map fst es) st
         = Inr (extend st (concat (map (\<lambda>e. scan_files specs root (cur @ [fst e]) (snd e)) es))
                          (concat (map (\<lambda>e. scan_dirs specs root (cur @ [fst e]) (snd e)) es)))"
  using assms
proof (induction es arbitrary: st)
  case Nil
  show ?case by simp
next
  case (Cons e es)
  let ?st' = "extend st (scan_files specs root (cur @ [fst e]) (snd e))
                        (scan_dirs specs root (cur @ [fst e]) (snd e))"
  have first: "f (fst e) st = Inr ?st'"
    using Cons.prems by simp
  have ok': "skip_ok specs root ?st'"
    using Cons.prems(2) by (intro skip_ok_extend) (auto dest: scan_dirs_ignored)
  have rest: "fold_err f (map fst es) ?st'
     = Inr (extend ?st' (concat (map (\<lambda>e. scan_files specs root (cur @ [fst e]) (snd e)) es))
                        (concat (map (\<lambda>e. scan_dirs specs root (cur @ [fst e]) (snd e)) es)))"
    using Cons.prems(1) ok' by (intro Cons.IH) auto
  show ?case by (simp add: first rest)
qed

lemma fold_err_skip: "(\<And>x s. x \<in> set xs \<Longrightarrow> f x s = Inr s) \<Longrightarrow> fold_err f xs s = Inr s"
  by (induction xs) simp_all

lemma os_walk_scan:
  "wf_node t \<Longrightarrow> stat fs cur = Inr (Some t) \<Longrightarrow> prefix root cur \<Longrightarrow> skip_ok specs root st
   \<Longrightarrow> \<not> dir_ignored specs root cur
   \<Longrightarrow> os_walk (scan_body root specs) fs cur st
       = Inr (extend st (scan_files specs root cur t) (scan_dirs specs root cur t))"
proof (induction specs root cur t arbitrary: st rule: scan_dirs.induct)
  case (1 specs root cur c)
  then show ?case by (simp add: os_walk.simps listdir_def)
next
  case (2 specs root cur searchable entries)
  have ld: "listdir fs cur = Some entries"
    using "2.prems"(2) by (simp add: listdir_def)
  have dist: "distinct (map fst entries)" using "2.prems"(1) by simp
  have notskip: "cur \<notin> skip_directories st"
    using "2.prems"(4,5) by (auto simp: skip_ok_def)
  let ?st1 = "extend st
     (map (\<lambda>n. cur @ [n]) (filter (\<lambda>n. file_ignored specs root (cur @ [n])) (filenames entries)))
     (map (\<lambda>n. cur @ [n]) (filter (\<lambda>n. dir_ignored specs root (cur @ [n])) (visible_dirs entries)))"
  have body: "scan_body root specs cur (dirnames entries) (filenames entries) st
     = Inr (map fst (filter (kept_entry specs root cur) entries), ?st1)"
    using scan_body_eq[OF "2.prems"(3) notskip, of specs entries]
    by (simp add: kept_names[OF dist])
  have ok1: "skip_ok specs root ?st1"
    using "2.prems"(4) by (intro skip_ok_extend) auto
  show ?case
  proof (cases searchable)
    case True
    have ent: "filter (entered specs root cur searchable) entries
               = filter (kept_entry specs root cur) entries"
      using True by (simp add: entered_def[abs_def])
    have children: "fold_err (\<lambda>dirname. os_walk (scan_body root specs) fs (cur @ [dirname]))
            (map fst (filter (kept_entry specs root cur) entries)) ?st1
       = Inr (extend ?st1
           (concat (map (\<lambda>e. scan_files specs root (cur @ [fst e]) (snd e))
                        (filter (kept_entry specs root cur) entries)))
           (concat (map (\<lambda>e. scan_dirs specs root (cur @ [fst e]) (snd e))
                        (filter (kept_entry specs root cur) entries))))"
    proof (rule walk_children[OF _ ok1])
      fix e st'
      assume e: "e \<in> set (filter (kept_entry specs root cur) entries)"
        and ok': "skip_ok specs root st'"
      from e have mem: "e \<in> set entries" and kept: "kept_entry specs root cur e" by auto
      from e have e': "e \<in> set (filter (entered specs root cur searchable) entries)"
        by (simp add: ent)
      have "map_of entries (fst e) = Some (snd e)"
        using dist mem by (cases e) (simp add: map_of_eq_Some_iff)
      then have look: "stat fs (cur @ [fst e]) = Inr (Some (snd e))"
        using "2.prems"(2) True by (simp add: stat_append)
      have wf: "wf_node (snd e)" using "2.prems"(1) mem by simp
      have pre: "prefix root (cur @ [fst e])" using "2.prems"(3) by (auto simp: prefix_def)
      have notign: "\<not> dir_ignored specs root (cur @ [fst e])"
        using kept by (simp add: kept_entry_def)
      show "os_walk (scan_body root specs) fs (cur @ [fst e]) st'
            = Inr (extend st' (scan_files specs root (cur @ [fst e]) (snd e))
                              (scan_dirs specs root (cur @ [fst e]) (snd e)))"
        by (rule "2.IH"[OF e' wf look pre ok' notign])
    qed
    show ?thesis
      by (simp add: os_walk.simps[of _ fs cur] ld body children ent)
  next
    case False
    have ent: "filter (entered specs root cur searchable) entries = []"
      using False by (simp add: entered_def)
    have pass_by: "os_walk (scan_body root specs) fs (cur @ [d]) st' = Inr st'" for d st'
    proof -
      have "stat fs (cur @ [d]) = Inl OSError"
        using "2.prems"(2) False by (simp add: stat_append)
      then show ?thesis
        by (simp add: os_walk.simps[of _ fs "cur @ [d]"] listdir_def)
    qed
    have children: "fold_err (\<lambda>dirname. os_walk (scan_body root specs) fs (cur @ [dirname]))
            (map fst (filter (kept_entry specs root cur) entries)) ?st1 = Inr ?st1"
    proof (rule fold_err_skip)
      fix x :: string and s :: scan_state
      show "os_walk (scan_body root specs) fs (cur @ [x]) s = Inr s" by (rule pass_by)
    qed
    show ?thesis
      by (simp add: os_walk.simps[of _ fs cur] ld body children ent)
  qed
qed

definition reached :: "rulemap \<Rightarrow> path \<Rightarrow> path \<Rightarrow> path \<Rightarrow> bool" where
  "reached specs root cur p =
     (\<exists>rel. p = cur @ rel \<and> rel \<noteq> []
            \<and> (\<forall>k. 0 < k \<and> k < length rel \<longrightarrow> \<not> dir_ignored specs root (cur @ take k rel)))"

lemma reached_child: "reached specs root cur (cur @ [n])"
  by (auto simp: reached_def)

lemma reached_step:
  assumes "reached specs root (cur @ [n]) p" and "\<not> dir_ignored specs root (cur @ [n])"
  shows "reached specs root cur p"
proof -
  from assms(1) obtain rel where rel: "p = (cur @ [n]) @ rel" "rel \<noteq> []"
    and kept: "\<forall>k. 0 < k \<and> k < length rel \<longrightarrow> \<not> dir_ignored specs root ((cur @ [n]) @ take k rel)"
    by (auto simp: reached_def)
  have "\<not> dir_ignored specs root (cur @ take k (n # rel))" if k: "0 < k" "k < length (n # rel)" for k
  proof (cases k)
    case 0
    with k show ?thesis by simp
  next
    case (Suc j)
    show ?thesis
    proof (cases "j = 0")
      case True
      with Suc assms(2) show ?thesis by simp
    next
      case False
      with Suc k kept have "\<not> dir_ignored specs root ((cur @ [n]) @ take j rel)" by simp
      with Suc show ?thesis by simp
    qed
  qed
  with rel show ?thesis
    unfolding reached_def by (intro exI[of _ "n # rel"]) simp
qed

lemma scan_dirs_reached:
  "p \<in> set (scan_dirs specs root cur t) \<Longrightarrow> reached specs root cur p"
proof (induction specs root cur t arbitrary: p rule: scan_dirs.induct)
  case (1 specs root cur c)
  then show ?case by simp
next
  case (2 specs root cur searchable entries)
  from "2.prems" consider
    (here) n where "p = cur @ [n]"
  | (below) e where "e \<in> set (filter (entered specs root cur searchable) entries)"
      "p \<in> set (scan_dirs specs root (cur @ [fst e]) (snd e))"
    by auto
  then show ?case
  proof cases
    case here
    then show ?thesis by (simp add: reached_child)
  next
    case below
    from "2.IH"[OF below] have "reached specs root (cur @ [fst e]) p" .
    moreover have "\<not> dir_ignored specs root (cur @ [fst e])"
      using below(1) by (simp add: entered_def kept_entry_def)
    ultimately show ?thesis by (rule reached_step)
  qed
qed

lemma scan_files_reached:
  "p \<in> set (scan_files specs root cur t) \<Longrightarrow> reached specs root cur p"
proof (induction specs root cur t arbitrary: p rule: scan_files.induct)
  case (1 specs root cur c)
  then show ?case by simp
next
  case (2 specs root cur searchable entries)
  from "2.prems" consider
    (here) n where "p = cur @ [n]"
  | (below) e where "e \<in> set (filter (entered specs root cur searchable) entries)"
      "p \<in> set (scan_files specs root (cur @ [fst e]) (snd e))"
    by auto
  then show ?case
  proof cases
    case here
    then show ?thesis by (simp add: reached_child)
  next
    case below
    from "2.IH"[OF below] have "reached specs root (cur @ [fst e]) p" .
    moreover have "\<not> dir_ignored specs root (cur @ [fst e])"
      using below(1) by (simp add: entered_def kept_entry_def)
    ultimately show ?thesis by (rule reached_step)
  qed
qed

lemma reached_not_below_ignored:
  assumes "reached specs root root p" and "dir_ignored specs root d" and "strict_prefix d p"
  shows False
proof -
  from assms(1) obtain rel where rel: "p = root @ rel" "rel \<noteq> []"
    and kept: "\<forall>k. 0 < k \<and> k < length rel \<longrightarrow> \<not> dir_ignored specs root (root @ take k rel)"
    by (auto simp: reached_def)
  from assms(2) have "prefix root d"
    by (auto simp: dir_ignored_def relative_to_def split: if_splits)
  then obtain rd where d: "d = root @ rd" by (auto simp: prefix_def)
  have "rd \<noteq> []"
    using assms(2) d by (auto simp: dir_ignored_def relative_to_def)
  from assms(3) have "strict_prefix rd rel" using d rel by (auto simp: strict_prefix_def)
  then obtain zs where "rel = rd @ zs" "zs \<noteq> []" by (auto simp: strict_prefix_def prefix_def)
  then have "take (length rd) rel = rd" "length rd < length rel" by simp_all
  with kept \<open>rd \<noteq> []\<close> have "\<not> dir_ignored specs root (root @ rd)"
    by (metis length_greater_0_conv)
  with assms(2) d show False by simp
qed

text \<open>The node the walk starts from: none when the root cannot be reached.\<close>

definition subtree :: "node \<Rightarrow> path \<Rightarrow> node option" where
  "subtree fs p = (case stat fs p of Inl e \<Rightarrow> None | Inr r \<Rightarrow> r)"

lemma subtree_Nil: "subtree t [] = Some t"
  by (simp add: subtree_def)

lemma subtree_Dir:
  "subtree (Dir searchable entries) (n # ns)
   = (if searchable
      then (case map_of entries n of None \<Rightarrow> None | Some c \<Rightarrow> subtree c ns)
      else None)"
  by (simp add: subtree_def split: option.splits)

lemma subtree_File: "subtree (File c) (n # ns) = None"
  by (simp add: subtree_def)

lemma subtree_stat: "subtree fs p = Some t \<longleftrightarrow> stat fs p = Inr (Some t)"
  by (auto simp: subtree_def split: sum.splits)

lemma subtree_None: "subtree fs p = None \<Longrightarrow> listdir fs p = None"
  by (auto simp: subtree_def listdir_def split: sum.splits)

lemma wf_subtree: "wf_node t \<Longrightarrow> subtree t p = Some c \<Longrightarrow> wf_node c"
proof (induction p arbitrary: t)
  case Nil
  then show ?case by (simp add: subtree_Nil)
next
  case (Cons n ns)
  show ?case
  proof (cases t)
    case (File c')
    with Cons.prems show ?thesis by (simp add: subtree_File)
  next
    case (Dir searchable entries)
    with Cons.prems obtain c' where c': "map_of entries n = Some c'" "subtree c' ns = Some c"
      by (auto simp: subtree_Dir split: if_splits option.splits)
    then have "wf_node c'" using Cons.prems(1) Dir by (auto dest!: map_of_SomeD)
    with c'(2) show ?thesis by (rule Cons.IH[rotated])
  qed
qed

lemma dir_ignored_root: "\<not> dir_ignored specs root root"
  by (simp add: dir_ignored_def relative_to_def)

lemma decision_pass_eq:
  assumes "wf_node fs"
  shows "decision_pass root specs fs
         = Inr (case subtree fs root of
                  None \<Rightarrow> ([], [])
                | Some t \<Rightarrow> (scan_files specs root root t, scan_dirs specs root root t))"
proof (cases "subtree fs root")
  case None
  then show ?thesis
    by (simp add: decision_pass_def os_walk.simps[of _ fs root] subtree_None)
next
  case (Some t)
  then have st: "stat fs root = Inr (Some t)" by (simp add: subtree_stat)
  have "skip_ok specs root \<lparr>ignored_files = [], ignored_directories = [], skip_directories = {}\<rparr>"
    by (simp add: skip_ok_def)
  from os_walk_scan[OF wf_subtree[OF assms Some] st _ this dir_ignored_root]
  show ?thesis by (simp add: decision_pass_def Some)
qed

section \<open>A sample tree\<close>

definition sample_tree :: node where
  "sample_tree =
     Dir True [(''proj'',
           Dir True [(''.gitignore'', File (Lines [''build'', ''build/a.o'', ''app.log''])),
                (''build'', Dir True [(''a.o'', File (Lines []))]),
                (''app.log'', File (Lines [])),
                (''app.txt'', File (Lines [])),
                (''.git'', Dir True [(''.gitignore'', File (Lines [''HEAD'']))])])]"

lemma os_walk_Dir:
  "stat fs top_dir = Inr (Some (Dir searchable entries)) \<Longrightarrow>
   os_walk body fs top_dir s =
     (case body top_dir (dirnames entries) (filenames entries) s of
        Inl e \<Rightarrow> Inl e
      | Inr (dirs, s') \<Rightarrow> fold_err (\<lambda>dirname. os_walk body fs (top_dir @ [dirname])) dirs s')"
  by (simp add: os_walk.simps[of body fs top_dir] listdir_def)

lemma os_walk_File:
  "stat fs top_dir = Inr (Some (File c)) \<Longrightarrow> os_walk body fs top_dir s = Inr s"
  by (simp add: os_walk.simps[of body fs top_dir] listdir_def)

lemma os_walk_None: "stat fs top_dir = Inr None \<Longrightarrow> os_walk body fs top_dir s = Inr s"
  by (simp add: os_walk.simps[of body fs top_dir] listdir_def)

lemma os_walk_denied: "stat fs top_dir = Inl e \<Longrightarrow> os_walk body fs top_dir s = Inr s"
  by (simp add: os_walk.simps[of body fs top_dir] listdir_def)

lemma sample_collect:
  "map fst (projr (collect_all_gitignore_specs compile_exactly sample_tree [''proj'']))
   = [[''proj''], [''proj'', ''.git'']]"
  by (simp add: collect_all_gitignore_specs_def sample_tree_def os_walk_Dir os_walk_File os_walk_None
        dirnames_def filenames_def collect_body_def load_gitignore_patterns_def
        path_exists_def read_lines_def compile_exactly_def Let_def)

lemma sample_find:
  "find_ignored_files compile_exactly sample_tree [''proj'']
   = Inr ([[''proj'', ''app.log'']], [[''proj'', ''build'']])"
  by (simp add: find_ignored_files_def collect_all_gitignore_specs_def decision_pass_def
        sample_tree_def os_walk_Dir os_walk_File os_walk_None
        dirnames_def filenames_def collect_body_def load_gitignore_patterns_def
        path_exists_def read_lines_def compile_exactly_def
        scan_body_def check_directory_def check_file_def list_remove_def
        is_directory_ignored_def is_file_ignored_def relative_to_def scope_matches_def
        parent_def name_def str_path_def match_exactly_def Let_def)

section \<open>Properties of the scan\<close>

lemma decision_pass_containment:
  assumes "wf_node fs" and "decision_pass root specs fs = Inr (files, dirs)"
    and "d \<in> set dirs" and "p \<in> set files \<union> set dirs"
  shows "\<not> strict_prefix d p"
proof (cases "subtree fs root")
  case None
  with assms show ?thesis by (simp add: decision_pass_eq)
next
  case (Some t)
  with assms(1,2) have res: "files = scan_files specs root root t" "dirs = scan_dirs specs root root t"
    by (simp_all add: decision_pass_eq)
  have "dir_ignored specs root d"
    using assms(3) res by (auto dest: scan_dirs_ignored)
  moreover have "reached specs root root p"
    using assms(4) res by (auto dest: scan_dirs_reached scan_files_reached)
  ultimately show ?thesis
    using reached_not_below_ignored by blast
qed

lemma find_ignored_files_cases:
  assumes "find_ignored_files from_lines fs root = Inr (files, dirs)"
  shows "(files = [] \<and> dirs = []) \<or> (\<exists>specs. decision_pass root specs fs = Inr (files, dirs))"
  using assms by (auto simp: find_ignored_files_def split: sum.splits if_splits)

text \<open>
  C2.  Whatever the tree, once the scan has put a directory into the list of ignored
  directories, nothing below that directory is in either list.
\<close>

theorem scan_containment:
  "wf_node fs \<Longrightarrow> find_ignored_files from_lines fs root = Inr (files, dirs)
   \<Longrightarrow> d \<in> set dirs \<Longrightarrow> p \<in> set files \<union> set dirs \<Longrightarrow> \<not> strict_prefix d p"
  using find_ignored_files_cases[of from_lines fs root files dirs] decision_pass_containment[of fs root _ files dirs d p]
  by auto

theorem scan_containment_witness:
  "wf_node sample_tree
   \<and> find_ignored_files compile_exactly sample_tree [''proj'']
       = Inr ([[''proj'', ''app.log'']], [[''proj'', ''build'']])
   \<and> [''proj'', ''build''] \<in> set [[''proj'', ''build'']]
   \<and> [''proj'', ''app.log''] \<in> set [[''proj'', ''app.log'']] \<union> set [[''proj'', ''build'']]
   \<and> \<not> strict_prefix [''proj'', ''build''] [''proj'', ''app.log'']"
proof -
  have wf: "wf_node sample_tree" by (simp add: sample_tree_def)
  have d: "[''proj'', ''build''] \<in> set [[''proj'', ''build'']]" by simp
  have p: "[''proj'', ''app.log''] \<in> set [[''proj'', ''app.log'']] \<union> set [[''proj'', ''build'']]"
    by simp
  from scan_containment[OF wf sample_find d p] wf sample_find d p show ?thesis by blast
qed

text \<open>
  C3.  The collector does not leave out the \<^verbatim>\<open>.git\<close> directory: in the sample tree the
  ignore-rule file inside \<^verbatim>\<open>.git\<close> gets its own key in the rule map.
\<close>

theorem collector_enters_git:
  "map_sum id (map fst) (collect_all_gitignore_specs compile_exactly sample_tree [''proj''])
   = Inr [[''proj''], [''proj'', ''.git'']]"
  by (simp add: collect_all_gitignore_specs_def sample_tree_def os_walk_Dir os_walk_File os_walk_None
        dirnames_def filenames_def collect_body_def load_gitignore_patterns_def
        path_exists_def read_lines_def compile_exactly_def Let_def)

lemma map_of_entry:
  "distinct (map fst es) \<Longrightarrow> e \<in> set es \<Longrightarrow> map_of es (fst e) = Some (snd e)"
  by (cases e) (simp add: map_of_eq_Some_iff)

lemma visible_dirs_mem:
  "distinct (map fst es) \<Longrightarrow>
   n \<in> set (visible_dirs es) \<longleftrightarrow> (\<exists>c. (n, c) \<in> set es \<and> is_dir c \<and> n \<noteq> ''.git'')"
  by (force simp: visible_dirs_distinct)

lemma filenames_mem: "n \<in> set (filenames es) \<longleftrightarrow> (\<exists>c. (n, c) \<in> set es \<and> \<not> is_dir c)"
  by (force simp: filenames_def)

text \<open>The node at a path below a node, whatever the permissions.\<close>

fun lookup :: "node \<Rightarrow> path \<Rightarrow> node option" where
  "lookup t [] = Some t"
| "lookup (Dir searchable entries) (n # ns) =
     (case map_of entries n of None \<Rightarrow> None | Some c \<Rightarrow> lookup c ns)"
| "lookup (File c) (n # ns) = None"

lemma scan_dirs_kind:
  "wf_node t \<Longrightarrow> p \<in> set (scan_dirs specs root cur t)
   \<Longrightarrow> \<exists>rel c. p = cur @ rel \<and> lookup t rel = Some c \<and> is_dir c"
proof (induction specs root cur t arbitrary: p rule: scan_dirs.induct)
  case (1 specs root cur c)
  then show ?case by simp
next
  case (2 specs root cur searchable entries)
  have dist: "distinct (map fst entries)" using "2.prems"(1) by simp
  from "2.prems"(2) consider
    (here) n where "p = cur @ [n]" "n \<in> set (visible_dirs entries)"
  | (below) e where "e \<in> set (filter (entered specs root cur searchable) entries)"
      "p \<in> set (scan_dirs specs root (cur @ [fst e]) (snd e))"
    by auto
  then show ?case
  proof cases
    case here
    then obtain c where c: "(n, c) \<in> set entries" "is_dir c"
      using visible_dirs_mem[OF dist] by blast
    then have "lookup (Dir searchable entries) [n] = Some c"
      using map_of_entry[OF dist c(1)] by simp
    with here c show ?thesis by blast
  next
    case below
    then have mem: "e \<in> set entries" by simp
    then have "wf_node (snd e)" using "2.prems"(1) by simp
    from "2.IH"[OF below(1) this below(2)] obtain rel c where
      rc: "p = (cur @ [fst e]) @ rel" "lookup (snd e) rel = Some c" "is_dir c" by blast
    have "lookup (Dir searchable entries) (fst e # rel) = Some c"
      using map_of_entry[OF dist mem] rc(2) by simp
    with rc show ?thesis by (intro exI[of _ "fst e # rel"] exI[of _ c]) simp
  qed
qed

lemma scan_files_kind:
  "wf_node t \<Longrightarrow> p \<in> set (scan_files specs root cur t)
   \<Longrightarrow> \<exists>rel c. p = cur @ rel \<and> lookup t rel = Some c \<and> \<not> is_dir c"
proof (induction specs root cur t arbitrary: p rule: scan_files.induct)
  case (1 specs root cur c)
  then show ?case by simp
next
  case (2 specs root cur searchable entries)
  have dist: "distinct (map fst entries)" using "2.prems"(1) by simp
  from "2.prems"(2) consider
    (here) n where "p = cur @ [n]" "n \<in> set (filenames entries)"
  | (below) e where "e \<in> set (filter (entered specs root cur searchable) entries)"
      "p \<in> set (scan_files specs root (cur @ [fst e]) (snd e))"
    by auto
  then show ?case
  proof cases
    case here
    then obtain c where c: "(n, c) \<in> set entries" "\<not> is_dir c"
      using filenames_mem by blast
    then have "lookup (Dir searchable entries) [n] = Some c"
      using map_of_entry[OF dist c(1)] by simp
    with here c show ?thesis by blast
  next
    case below
    then have mem: "e \<in> set entries" by simp
    then have "wf_node (snd e)" using "2.prems"(1) by simp
    from "2.IH"[OF below(1) this below(2)] obtain rel c where
      rc: "p = (cur @ [fst e]) @ rel" "lookup (snd e) rel = Some c" "\<not> is_dir c" by blast
    have "lookup (Dir searchable entries) (fst e # rel) = Some c"
      using map_of_entry[OF dist mem] rc(2) by simp
    with rc show ?thesis by (intro exI[of _ "fst e # rel"] exI[of _ c]) simp
  qed
qed

lemma distinct_concat_map:
  "distinct es \<Longrightarrow> (\<And>e. e \<in> set es \<Longrightarrow> distinct (g e))
   \<Longrightarrow> (\<And>e e'. e \<in> set es \<Longrightarrow> e' \<in> set es \<Longrightarrow> e \<noteq> e' \<Longrightarrow> set (g e) \<inter> set (g e') = {})
   \<Longrightarrow> distinct (concat (map g es))"
proof (induction es)
  case Nil
  show ?case by simp
next
  case (Cons e es)
  have "distinct (concat (map g es))"
    using Cons.prems by (intro Cons.IH) auto
  moreover have "distinct (g e)" using Cons.prems(2) by simp
  moreover have "set (g e) \<inter> set (g e') = {}" if "e' \<in> set es" for e'
    using Cons.prems(1) that Cons.prems(3)[of e e'] by auto
  ultimately show ?case by auto
qed

lemma distinct_level:
  assumes ns: "distinct ns"
    and es: "distinct (map fst es)"
    and each: "\<And>e. e \<in> set es \<Longrightarrow> distinct (g e)"
    and shape: "\<And>e p. e \<in> set es \<Longrightarrow> p \<in> set (g e) \<Longrightarrow> \<exists>rel. p = cur @ [fst e] @ rel \<and> rel \<noteq> []"
  shows "distinct (map (\<lambda>n. cur @ [n]) ns @ concat (map g es))"
proof -
  have a: "distinct (map (\<lambda>n. cur @ [n]) ns)"
    using ns by (simp add: distinct_map inj_on_def)
  have des: "distinct es" using es by (simp add: distinct_map)
  have b: "distinct (concat (map g es))"
  proof (rule distinct_concat_map[OF des each])
    fix e e' assume e: "e \<in> set es" "e' \<in> set es" "e \<noteq> e'"
    have "fst e \<noteq> fst e'"
      using es e by (metis distinct_map inj_on_def)
    then show "set (g e) \<inter> set (g e') = {}"
      using shape[OF e(1)] shape[OF e(2)] by fastforce
  qed
  have c: "set (map (\<lambda>n. cur @ [n]) ns) \<inter> set (concat (map g es)) = {}"
    using shape by fastforce
  from a b c show ?thesis by simp
qed

lemma reached_shape: "reached specs root c p \<Longrightarrow> \<exists>rel. p = c @ rel \<and> rel \<noteq> []"
  by (auto simp: reached_def)

lemma distinct_visible_dirs: "distinct (map fst es) \<Longrightarrow> distinct (visible_dirs es)"
  by (simp add: visible_dirs_distinct distinct_map_filter)

lemma scan_dirs_distinct: "wf_node t \<Longrightarrow> distinct (scan_dirs specs root cur t)"
proof (induction specs root cur t rule: scan_dirs.induct)
  case (1 specs root cur c)
  show ?case by simp
next
  case (2 specs root cur searchable entries)
  have dist: "distinct (map fst entries)" using "2.prems" by simp
  have "distinct (map (\<lambda>n. cur @ [n]) (filter (\<lambda>n. dir_ignored specs root (cur @ [n])) (visible_dirs entries))
        @ concat (map (\<lambda>e. scan_dirs specs root (cur @ [fst e]) (snd e))
                      (filter (entered specs root cur searchable) entries)))"
  proof (rule distinct_level)
    show "distinct (filter (\<lambda>n. dir_ignored specs root (cur @ [n])) (visible_dirs entries))"
      using distinct_visible_dirs[OF dist] by simp
    show "distinct (map fst (filter (entered specs root cur searchable) entries))"
      using dist by (rule distinct_map_filter)
  next
    fix e assume e: "e \<in> set (filter (entered specs root cur searchable) entries)"
    then have "wf_node (snd e)" using "2.prems" by simp
    with e show "distinct (scan_dirs specs root (cur @ [fst e]) (snd e))" by (rule "2.IH")
  next
    fix e p assume "e \<in> set (filter (entered specs root cur searchable) entries)"
      and "p \<in> set (scan_dirs specs root (cur @ [fst e]) (snd e))"
    then show "\<exists>rel. p = cur @ [fst e] @ rel \<and> rel \<noteq> []"
      using reached_shape[OF scan_dirs_reached] by fastforce
  qed
  then show ?case by simp
qed

lemma scan_files_distinct: "wf_node t \<Longrightarrow> distinct (scan_files specs root cur t)"
proof (induction specs root cur t rule: scan_files.induct)
  case (1 specs root cur c)
  show ?case by simp
next
  case (2 specs root cur searchable entries)
  have dist: "distinct (map fst entries)" using "2.prems" by simp
  have "distinct (map (\<lambda>n. cur @ [n]) (filter (\<lambda>n. file_ignored specs root (cur @ [n])) (filenames entries))
        @ concat (map (\<lambda>e. scan_files specs root (cur @ [fst e]) (snd e))
                      (filter (entered specs root cur searchable) entries)))"
  proof (rule distinct_level)
    show "distinct (filter (\<lambda>n. file_ignored specs root (cur @ [n])) (filenames entries))"
      using dist by (simp add: filenames_def distinct_map_filter)
    show "distinct (map fst (filter (entered specs root cur searchable) entries))"
      using dist by (rule distinct_map_filter)
  next
    fix e assume e: "e \<in> set (filter (entered specs root cur searchable) entries)"
    then have "wf_node (snd e)" using "2.prems" by simp
    with e show "distinct (scan_files specs root (cur @ [fst e]) (snd e))" by (rule "2.IH")
  next
    fix e p assume "e \<in> set (filter (entered specs root cur searchable) entries)"
      and "p \<in> set (scan_files specs root (cur @ [fst e]) (snd e))"
    then show "\<exists>rel. p = cur @ [fst e] @ rel \<and> rel \<noteq> []"
      using reached_shape[OF scan_files_reached] by fastforce
  qed
  then show ?case by simp
qed

lemma decision_pass_distinct:
  assumes "wf_node fs" and "decision_pass root specs fs = Inr (files, dirs)"
  shows "distinct (files @ dirs)"
proof (cases "subtree fs root")
  case None
  with assms show ?thesis by (simp add: decision_pass_eq)
next
  case (Some t)
  with assms have res: "files = scan_files specs root root t" "dirs = scan_dirs specs root root t"
    by (simp_all add: decision_pass_eq)
  have wf: "wf_node t" using assms(1) Some by (rule wf_subtree)
  have "set files \<inter> set dirs = {}"
  proof (rule ccontr)
    assume "set files \<inter> set dirs \<noteq> {}"
    then obtain p where p: "p \<in> set files" "p \<in> set dirs" by blast
    from scan_files_kind[OF wf] p(1) res obtain rel c where
      f: "p = root @ rel" "lookup t rel = Some c" "\<not> is_dir c" by blast
    from scan_dirs_kind[OF wf] p(2) res obtain rel' c' where
      d: "p = root @ rel'" "lookup t rel' = Some c'" "is_dir c'" by blast
    from f d show False by simp
  qed
  with scan_files_distinct[OF wf] scan_dirs_distinct[OF wf] res show ?thesis by simp
qed

text \<open>
  C8.  No path is listed twice: the list of ignored files and the list of ignored
  directories have no repetition, and no path is in both.
\<close>

theorem scan_lists_distinct:
  "wf_node fs \<Longrightarrow> find_ignored_files from_lines fs root = Inr (files, dirs)
   \<Longrightarrow> distinct files \<and> distinct dirs \<and> set files \<inter> set dirs = {}"
  using find_ignored_files_cases[of from_lines fs root files dirs]
    decision_pass_distinct[of fs root _ files dirs]
  by auto

theorem scan_lists_distinct_witness:
  "wf_node sample_tree
   \<and> find_ignored_files compile_exactly sample_tree [''proj'']
       = Inr ([[''proj'', ''app.log'']], [[''proj'', ''build'']])
   \<and> distinct [[''proj'', ''app.log'']] \<and> distinct [[''proj'', ''build'']]
   \<and> set [[''proj'', ''app.log'']] \<inter> set [[''proj'', ''build'']] = {}"
proof -
  have wf: "wf_node sample_tree" by (simp add: sample_tree_def)
  from scan_lists_distinct[OF wf sample_find] wf sample_find show ?thesis by blast
qed

text \<open>
  Two trees that differ only in the order in which each directory lists its entries: the
  names are the same, and the entries of the same name are again such trees.
\<close>

inductive same_listing :: "node \<Rightarrow> node \<Rightarrow> bool" where
  files: "same_listing (File c) (File c)"
| dirs: "mset (map fst es) = mset (map fst es')
         \<Longrightarrow> (\<And>n c c'. (n, c) \<in> set es \<Longrightarrow> (n, c') \<in> set es' \<Longrightarrow> same_listing c c')
         \<Longrightarrow> same_listing (Dir s es) (Dir s es')"

lemma same_listing_sym: "same_listing t t' \<Longrightarrow> same_listing t' t"
  by (induction rule: same_listing.induct) (auto intro: same_listing.intros)

lemma same_listing_is_dir: "same_listing t t' \<Longrightarrow> is_dir t = is_dir t'"
  by (induction rule: same_listing.induct) auto

lemma same_listing_entry:
  assumes "mset (map fst es) = mset (map fst es')" and "e \<in> set es"
  obtains e' where "e' \<in> set es'" "fst e' = fst e"
proof -
  have "fst e \<in> set (map fst es)" using assms(2) by simp
  then have "fst e \<in> set (map fst es')" using assms(1) by (metis set_mset_mset)
  then show ?thesis using that by auto
qed

lemma same_listing_wf: "same_listing t t' \<Longrightarrow> wf_node t \<Longrightarrow> wf_node t'"
proof (induction rule: same_listing.induct)
  case (files c)
  show ?case by simp
next
  case (dirs es es' s)
  have d: "distinct (map fst es')"
    using dirs.hyps(1) dirs.prems by (metis wf_node.simps(2) mset_eq_imp_distinct_iff)
  have "wf_node (snd e')" if e': "e' \<in> set es'" for e'
  proof -
    from same_listing_entry[OF dirs.hyps(1)[symmetric] e'] obtain e where
      e: "e \<in> set es" "fst e = fst e'" by blast
    then have "wf_node (snd e)" using dirs.prems by simp
    moreover have "(fst e, snd e) \<in> set es" "(fst e, snd e') \<in> set es'"
      using e e' by (metis prod.collapse)+
    ultimately show ?thesis using dirs.IH by blast
  qed
  with d show ?case by simp
qed

lemma same_listing_subtree:
  "same_listing t t' \<Longrightarrow> rel_option same_listing (subtree t p) (subtree t' p)"
proof (induction p arbitrary: t t')
  case Nil
  then show ?case by (simp add: subtree_Nil)
next
  case (Cons n ns)
  from Cons.prems show ?case
  proof (cases rule: same_listing.cases)
    case (files c)
    then show ?thesis by (simp add: subtree_File)
  next
    case (dirs es es' s)
    have names: "set (map fst es) = set (map fst es')"
      using dirs(3) by (metis set_mset_mset)
    show ?thesis
    proof (cases s)
      case False
      with dirs show ?thesis by (simp add: subtree_Dir)
    next
      case True
      show ?thesis
      proof (cases "map_of es n")
        case None
        then have "n \<notin> set (map fst es')" using names by (simp add: map_of_eq_None_iff)
        then have "map_of es' n = None" by (simp add: map_of_eq_None_iff)
        with None dirs True show ?thesis by (simp add: subtree_Dir)
      next
        case (Some c)
        then have "n \<in> set (map fst es')"
          using names by (metis map_of_eq_None_iff option.distinct(1) list.set_map)
        then obtain c' where c': "map_of es' n = Some c'"
          by (metis map_of_eq_None_iff not_None_eq list.set_map)
        have "same_listing c c'"
          using dirs(4) Some c' by (blast dest: map_of_SomeD)
        from Cons.IH[OF this] Some c' dirs True show ?thesis by (simp add: subtree_Dir)
      qed
    qed
  qed
qed

lemma scan_dirs_below:
  "e \<in> set es \<Longrightarrow> entered specs root cur s e
   \<Longrightarrow> p \<in> set (scan_dirs specs root (cur @ [fst e]) (snd e))
   \<Longrightarrow> p \<in> set (scan_dirs specs root cur (Dir s es))"
  by auto

lemma scan_files_below:
  "e \<in> set es \<Longrightarrow> entered specs root cur s e
   \<Longrightarrow> p \<in> set (scan_files specs root (cur @ [fst e]) (snd e))
   \<Longrightarrow> p \<in> set (scan_files specs root cur (Dir s es))"
  by auto

lemma same_listing_scan_subset:
  "same_listing t t' \<Longrightarrow> wf_node t \<Longrightarrow> wf_node t'
   \<Longrightarrow> set (scan_dirs specs root cur t) \<subseteq> set (scan_dirs specs root cur t')
     \<and> set (scan_files specs root cur t) \<subseteq> set (scan_files specs root cur t')"
proof (induction arbitrary: cur rule: same_listing.induct)
  case (files c)
  show ?case by simp
next
  case (dirs es es' s)
  have d: "distinct (map fst es)" and d': "distinct (map fst es')"
    using dirs.prems by simp_all
  have match: "\<exists>e'. e' \<in> set es' \<and> fst e' = fst e \<and> is_dir (snd e') = is_dir (snd e)
                 \<and> (\<forall>cur. set (scan_dirs specs root cur (snd e)) \<subseteq> set (scan_dirs specs root cur (snd e'))
                        \<and> set (scan_files specs root cur (snd e)) \<subseteq> set (scan_files specs root cur (snd e')))"
    if e: "e \<in> set es" for e
  proof -
    from same_listing_entry[OF dirs.hyps(1) e] obtain e' where
      e': "e' \<in> set es'" "fst e' = fst e" by blast
    have mem: "(fst e, snd e) \<in> set es" "(fst e, snd e') \<in> set es'"
      using e e' by (metis prod.collapse)+
    have wf: "wf_node (snd e)" "wf_node (snd e')"
      using dirs.prems e e' by simp_all
    have kind: "is_dir (snd e') = is_dir (snd e)"
      using same_listing_is_dir[OF dirs.hyps(2)[OF mem]] by simp
    have "\<forall>cur. set (scan_dirs specs root cur (snd e)) \<subseteq> set (scan_dirs specs root cur (snd e'))
              \<and> set (scan_files specs root cur (snd e)) \<subseteq> set (scan_files specs root cur (snd e'))"
      using dirs.IH[OF mem wf] by blast
    with e' kind show ?thesis by blast
  qed
  have sub_dirs: "set (scan_dirs specs root cur (Dir s es)) \<subseteq> set (scan_dirs specs root cur (Dir s es'))"
  proof
    fix p assume "p \<in> set (scan_dirs specs root cur (Dir s es))"
    then consider
      (here) n where "p = cur @ [n]" "n \<in> set (visible_dirs es)" "dir_ignored specs root (cur @ [n])"
    | (below) e where "e \<in> set es" "entered specs root cur s e"
        "p \<in> set (scan_dirs specs root (cur @ [fst e]) (snd e))"
      by auto
    then show "p \<in> set (scan_dirs specs root cur (Dir s es'))"
    proof cases
      case here
      then obtain c where c: "(n, c) \<in> set es" "is_dir c" "n \<noteq> ''.git''"
        using visible_dirs_mem[OF d] by blast
      from match[OF c(1)] obtain e' where "e' \<in> set es'" "fst e' = n" "is_dir (snd e')"
        using c(2) by auto
      then have "n \<in> set (visible_dirs es')"
        using visible_dirs_mem[OF d', of n] c(3) by (metis prod.collapse)
      with here show ?thesis by simp
    next
      case below
      from match[OF below(1)] obtain e' where e': "e' \<in> set es'" "fst e' = fst e"
        "is_dir (snd e') = is_dir (snd e)"
        "set (scan_dirs specs root (cur @ [fst e]) (snd e))
           \<subseteq> set (scan_dirs specs root (cur @ [fst e]) (snd e'))"
        by blast
      then have kept: "entered specs root cur s e'"
        using below(2) by (simp add: entered_def kept_entry_def)
      have "p \<in> set (scan_dirs specs root (cur @ [fst e']) (snd e'))"
        using e'(2,4) below(3) by auto
      with e'(1) kept show ?thesis by (rule scan_dirs_below)
    qed
  qed
  have sub_files: "set (scan_files specs root cur (Dir s es)) \<subseteq> set (scan_files specs root cur (Dir s es'))"
  proof
    fix p assume "p \<in> set (scan_files specs root cur (Dir s es))"
    then consider
      (here) n where "p = cur @ [n]" "n \<in> set (filenames es)" "file_ignored specs root (cur @ [n])"
    | (below) e where "e \<in> set es" "entered specs root cur s e"
        "p \<in> set (scan_files specs root (cur @ [fst e]) (snd e))"
      by auto
    then show "p \<in> set (scan_files specs root cur (Dir s es'))"
    proof cases
      case here
      then obtain c where c: "(n, c) \<in> set es" "\<not> is_dir c"
        using filenames_mem by blast
      from match[OF c(1)] obtain e' where "e' \<in> set es'" "fst e' = n" "\<not> is_dir (snd e')"
        using c(2) by auto
      then have "n \<in> set (filenames es')"
        using filenames_mem[of n es'] by (metis prod.collapse)
      with here show ?thesis by simp
    next
      case below
      from match[OF below(1)] obtain e' where e': "e' \<in> set es'" "fst e' = fst e"
        "is_dir (snd e') = is_dir (snd e)"
        "set (scan_files specs root (cur @ [fst e]) (snd e))
           \<subseteq> set (scan_files specs root (cur @ [fst e]) (snd e'))"
        by blast
      then have kept: "entered specs root cur s e'"
        using below(2) by (simp add: entered_def kept_entry_def)
      have "p \<in> set (scan_files specs root (cur @ [fst e']) (snd e'))"
        using e'(2,4) below(3) by auto
      with e'(1) kept show ?thesis by (rule scan_files_below)
    qed
  qed
  from sub_dirs sub_files show ?case by simp
qed

lemma same_listing_scan_eq:
  assumes "same_listing t t'" and "wf_node t"
  shows "set (scan_dirs specs root cur t) = set (scan_dirs specs root cur t')
         \<and> set (scan_files specs root cur t) = set (scan_files specs root cur t')"
proof -
  have wf': "wf_node t'" using assms by (rule same_listing_wf)
  from same_listing_scan_subset[OF assms(1) assms(2) wf', of specs root cur]
    same_listing_scan_subset[OF same_listing_sym[OF assms(1)] wf' assms(2), of specs root cur]
  show ?thesis by auto
qed

text \<open>
  C9.  For every rule map, the decision pass on two trees that list the same entries in
  different orders returns, in both runs, lists with the same members.
\<close>

theorem decision_pass_order_independent:
  "wf_node fs \<Longrightarrow> same_listing fs fs'
   \<Longrightarrow> \<exists>files dirs files' dirs'.
         decision_pass root specs fs = Inr (files, dirs)
         \<and> decision_pass root specs fs' = Inr (files', dirs')
         \<and> set files = set files' \<and> set dirs = set dirs'"
proof -
  assume wf: "wf_node fs" and same: "same_listing fs fs'"
  have wf': "wf_node fs'" using same wf by (rule same_listing_wf)
  from same_listing_subtree[OF same, of root] show ?thesis
  proof (cases rule: option.rel_cases)
    case None
    with wf wf' show ?thesis by (simp add: decision_pass_eq)
  next
    case (Some t t')
    have "wf_node t" using wf Some(1) by (rule wf_subtree)
    from same_listing_scan_eq[OF Some(3) this, of specs root root] Some(1,2) wf wf'
    show ?thesis by (simp add: decision_pass_eq)
  qed
qed

definition sample_tree_reordered :: node where
  "sample_tree_reordered =
     Dir True [(''proj'',
           Dir True [(''app.txt'', File (Lines [])),
                (''.git'', Dir True [(''.gitignore'', File (Lines [''HEAD'']))]),
                (''app.log'', File (Lines [])),
                (''build'', Dir True [(''a.o'', File (Lines []))]),
                (''.gitignore'', File (Lines [''build'', ''build/a.o'', ''app.log'']))])]"

definition sample_rules :: rulemap where
  "sample_rules = [([''proj''], match_exactly [''build'', ''build/a.o'', ''app.log''])]"

lemma sample_decision:
  "decision_pass [''proj''] sample_rules sample_tree
   = Inr ([[''proj'', ''app.log'']], [[''proj'', ''build'']])"
  by (simp add: decision_pass_def sample_rules_def
        sample_tree_def os_walk_Dir os_walk_File os_walk_None
        dirnames_def filenames_def
        scan_body_def check_directory_def check_file_def list_remove_def
        is_directory_ignored_def is_file_ignored_def relative_to_def scope_matches_def
        parent_def name_def str_path_def match_exactly_def Let_def)

lemma sample_decision_reordered:
  "decision_pass [''proj''] sample_rules sample_tree_reordered
   = Inr ([[''proj'', ''app.log'']], [[''proj'', ''build'']])"
  by (simp add: decision_pass_def sample_rules_def
        sample_tree_reordered_def os_walk_Dir os_walk_File os_walk_None
        dirnames_def filenames_def
        scan_body_def check_directory_def check_file_def list_remove_def
        is_directory_ignored_def is_file_ignored_def relative_to_def scope_matches_def
        parent_def name_def str_path_def match_exactly_def Let_def)

lemma same_listing_File_iff: "same_listing (File c) t \<longleftrightarrow> t = File c"
  by (auto simp: same_listing.simps[of "File c" t])

lemma same_listing_Dir_iff:
  "same_listing (Dir s es) (Dir s es') \<longleftrightarrow>
     mset (map fst es) = mset (map fst es')
     \<and> (\<forall>e \<in> set es. \<forall>e' \<in> set es'. fst e = fst e' \<longrightarrow> same_listing (snd e) (snd e'))"
proof
  assume "same_listing (Dir s es) (Dir s es')"
  then show "mset (map fst es) = mset (map fst es')
     \<and> (\<forall>e \<in> set es. \<forall>e' \<in> set es'. fst e = fst e' \<longrightarrow> same_listing (snd e) (snd e'))"
  proof (cases rule: same_listing.cases)
    case dirs
    have "same_listing (snd e) (snd e')" if "e \<in> set es" "e' \<in> set es'" "fst e = fst e'" for e e'
    proof -
      have "(fst e, snd e) \<in> set es" "(fst e, snd e') \<in> set es'"
        using that by (metis prod.collapse)+
      then show ?thesis by (rule dirs(2))
    qed
    with dirs(1) show ?thesis by blast
  qed
next
  assume r: "mset (map fst es) = mset (map fst es')
     \<and> (\<forall>e \<in> set es. \<forall>e' \<in> set es'. fst e = fst e' \<longrightarrow> same_listing (snd e) (snd e'))"
  show "same_listing (Dir s es) (Dir s es')"
  proof (rule same_listing.dirs)
    show "mset (map fst es) = mset (map fst es')" using r by simp
  next
    fix n c c' assume "(n, c) \<in> set es" "(n, c') \<in> set es'"
    with r show "same_listing c c'" by force
  qed
qed

lemma sample_same_listing: "same_listing sample_tree sample_tree_reordered"
  by (simp add: sample_tree_def sample_tree_reordered_def same_listing_Dir_iff same_listing_File_iff)

theorem decision_pass_order_independent_witness:
  "wf_node sample_tree \<and> same_listing sample_tree sample_tree_reordered
   \<and> set (fst (projr (decision_pass [''proj''] sample_rules sample_tree)))
       = set (fst (projr (decision_pass [''proj''] sample_rules sample_tree_reordered)))
   \<and> set (snd (projr (decision_pass [''proj''] sample_rules sample_tree)))
       = set (snd (projr (decision_pass [''proj''] sample_rules sample_tree_reordered)))"
proof -
  have wf: "wf_node sample_tree" by (simp add: sample_tree_def)
  from decision_pass_order_independent[OF wf sample_same_listing, of "[''proj'']" sample_rules]
  obtain files dirs files' dirs' where
    r: "decision_pass [''proj''] sample_rules sample_tree = Inr (files, dirs)"
       "decision_pass [''proj''] sample_rules sample_tree_reordered = Inr (files', dirs')"
       "set files = set files'" "set dirs = set dirs'"
    by blast
  have a: "set (fst (projr (decision_pass [''proj''] sample_rules sample_tree)))
       = set (fst (projr (decision_pass [''proj''] sample_rules sample_tree_reordered)))"
    by (simp add: r)
  have b: "set (snd (projr (decision_pass [''proj''] sample_rules sample_tree)))
       = set (snd (projr (decision_pass [''proj''] sample_rules sample_tree_reordered)))"
    by (simp add: r)
  from wf sample_same_listing a b show ?thesis by (intro conjI)
qed

lemma is_directory_ignored_agree:
  assumes "\<forall>k<length rel. map_of specs' (root @ take k rel) = map_of specs (root @ take k rel)"
  shows "is_directory_ignored (root @ rel) root specs' = is_directory_ignored (root @ rel) root specs"
proof -
  have "dir_scope_hit specs' root rel k = dir_scope_hit specs root rel k" if "k < length rel" for k
    using assms that by (simp add: dir_scope_hit_def)
  then have "list_ex (dir_scope_hit specs' root rel) [0..<length rel]
        = list_ex (dir_scope_hit specs root rel) [0..<length rel]"
    by (simp add: list_ex_iff)
  then show ?thesis by (simp add: is_directory_ignored_below)
qed

lemma decision_pass_not_root:
  assumes "wf_node fs" and "decision_pass root specs fs = Inr (files, dirs)"
  shows "root \<notin> set dirs"
proof (cases "subtree fs root")
  case None
  with assms show ?thesis by (simp add: decision_pass_eq)
next
  case (Some t)
  with assms have dirs: "dirs = scan_dirs specs root root t" by (simp add: decision_pass_eq)
  show ?thesis
  proof
    assume "root \<in> set dirs"
    then have "reached specs root root root" using dirs by (simp add: scan_dirs_reached)
    then show False by (simp add: reached_def)
  qed
qed

text \<open>
  C10.  For a directory at \<open>root @ rel\<close>, \<^verbatim>\<open>is_directory_ignored\<close> consults the scopes
  \<open>root @ take k rel\<close> with \<open>k < length rel\<close> only: the root and the directories down to
  the parent.  Two rule maps that agree on these keys give the same answer, so an entry
  keyed at the directory itself changes nothing; the root is never ignored, and the scan
  never lists it.
\<close>

theorem is_directory_ignored_strict_ancestors:
  "is_directory_ignored (root @ rel) root specs
     = Inr (list_ex (dir_scope_hit specs root rel) [0..<length rel])
   \<and> ((\<forall>k<length rel. map_of specs' (root @ take k rel) = map_of specs (root @ take k rel))
        \<longrightarrow> is_directory_ignored (root @ rel) root specs'
            = is_directory_ignored (root @ rel) root specs)
   \<and> is_directory_ignored (root @ rel) root (AList.update (root @ rel) spec specs)
       = is_directory_ignored (root @ rel) root specs
   \<and> is_directory_ignored root root specs = Inr False
   \<and> (wf_node fs \<and> decision_pass root specs fs = Inr (files, dirs) \<longrightarrow> root \<notin> set dirs)"
proof (intro conjI impI)
  show "is_directory_ignored (root @ rel) root specs
        = Inr (list_ex (dir_scope_hit specs root rel) [0..<length rel])"
    by (rule is_directory_ignored_below)
next
  assume "\<forall>k<length rel. map_of specs' (root @ take k rel) = map_of specs (root @ take k rel)"
  then show "is_directory_ignored (root @ rel) root specs'
             = is_directory_ignored (root @ rel) root specs"
    by (rule is_directory_ignored_agree)
next
  have "\<forall>k<length rel. map_of (AList.update (root @ rel) spec specs) (root @ take k rel)
                        = map_of specs (root @ take k rel)"
  proof (intro allI impI)
    fix k assume "k < length rel"
    then have "length (take k rel) \<noteq> length rel" by simp
    then have "take k rel \<noteq> rel" by metis
    then show "map_of (AList.update (root @ rel) spec specs) (root @ take k rel)
               = map_of specs (root @ take k rel)"
      by (simp add: update_conv')
  qed
  then show "is_directory_ignored (root @ rel) root (AList.update (root @ rel) spec specs)
             = is_directory_ignored (root @ rel) root specs"
    by (rule is_directory_ignored_agree)
next
  show "is_directory_ignored root root specs = Inr False"
    using is_directory_ignored_below[of root "[]" specs] by simp
next
  assume "wf_node fs \<and> decision_pass root specs fs = Inr (files, dirs)"
  then show "root \<notin> set dirs" using decision_pass_not_root by blast
qed

theorem is_directory_ignored_strict_ancestors_witness:
  "map_of (AList.update [''proj'', ''build''] (match_exactly [''.'', ''build'']) sample_rules)
          ([''proj''] @ take 0 [''build''])
     = map_of sample_rules ([''proj''] @ take 0 [''build''])
   \<and> is_directory_ignored ([''proj''] @ [''build'']) [''proj'']
        (AList.update [''proj'', ''build''] (match_exactly [''.'', ''build'']) sample_rules)
       = Inr True
   \<and> wf_node sample_tree
   \<and> decision_pass [''proj''] sample_rules sample_tree
       = Inr ([[''proj'', ''app.log'']], [[''proj'', ''build'']])
   \<and> [''proj''] \<notin> set [[''proj'', ''build'']]"
proof -
  note inst = is_directory_ignored_strict_ancestors[of "[''proj'']" "[''build'']" sample_rules
      "AList.update [''proj'', ''build''] (match_exactly [''.'', ''build'']) sample_rules"
      "match_exactly [''.'', ''build'']" sample_tree
      "[[''proj'', ''app.log'']]" "[[''proj'', ''build'']]"]
  have agree: "\<forall>k<length [''build''].
      map_of (AList.update [''proj'', ''build''] (match_exactly [''.'', ''build'']) sample_rules)
             ([''proj''] @ take k [''build''])
      = map_of sample_rules ([''proj''] @ take k [''build''])"
    by (simp add: sample_rules_def)
  have wf: "wf_node sample_tree" by (simp add: sample_tree_def)
  have plain: "is_directory_ignored ([''proj''] @ [''build'']) [''proj''] sample_rules = Inr True"
    using inst[THEN conjunct1]
    by (simp add: dir_scope_hit_def sample_rules_def match_exactly_def str_path_def)
  have "is_directory_ignored ([''proj''] @ [''build'']) [''proj'']
        (AList.update [''proj'', ''build''] (match_exactly [''.'', ''build'']) sample_rules)
       = is_directory_ignored ([''proj''] @ [''build'']) [''proj''] sample_rules"
    using inst[THEN conjunct2, THEN conjunct1] agree by (rule mp)
  then have same: "is_directory_ignored ([''proj''] @ [''build'']) [''proj'']
        (AList.update [''proj'', ''build''] (match_exactly [''.'', ''build'']) sample_rules)
       = Inr True"
    using plain by (rule trans)
  have notroot: "[''proj''] \<notin> set [[''proj'', ''build'']]"
    using inst[THEN conjunct2, THEN conjunct2, THEN conjunct2, THEN conjunct2]
      conjI[OF wf sample_decision]
    by (rule mp)
  have agree0: "map_of (AList.update [''proj'', ''build''] (match_exactly [''.'', ''build''])
                          sample_rules) ([''proj''] @ take 0 [''build''])
     = map_of sample_rules ([''proj''] @ take 0 [''build''])"
    using agree by simp
  show ?thesis
    by (rule conjI[OF agree0 conjI[OF same conjI[OF wf conjI[OF sample_decision notroot]]]])
qed

section \<open>Properties of the deletion planner\<close>

text \<open>
  To state what a run of the planner did: which removals, attempted in turn from a given
  state of the world, succeed; the removal calls in a trace; and the number of lines on
  the error stream.
\<close>

fun outcomes :: "'w removal \<Rightarrow> path list \<Rightarrow> 'w \<Rightarrow> bool list \<times> 'w" where
  "outcomes prim [] w = ([], w)"
| "outcomes prim (p # ps) w =
     (case prim p w of
        (r, w') \<Rightarrow> (case outcomes prim ps w' of (bs, w'') \<Rightarrow> ((r = None) # bs, w'')))"

fun is_call :: "event \<Rightarrow> bool" where
  "is_call (Unlink p) = True"
| "is_call (Rmtree p) = True"
| "is_call (Stdout s) = False"
| "is_call (Stderr s) = False"

fun is_error_line :: "event \<Rightarrow> bool" where
  "is_error_line (Stderr s) = True"
| "is_error_line (Stdout s) = False"
| "is_error_line (Unlink p) = False"
| "is_error_line (Rmtree p) = False"

definition removal_calls :: "event list \<Rightarrow> event list" where
  "removal_calls tr = filter is_call tr"

definition error_lines :: "event list \<Rightarrow> nat" where
  "error_lines tr = length (filter is_error_line tr)"

definition under :: "path \<Rightarrow> path list \<Rightarrow> bool" where
  "under root ps = (\<forall>p \<in> set ps. prefix root p)"

lemma under_Cons: "under root (p # ps) \<longleftrightarrow> prefix root p \<and> under root ps"
  by (simp add: under_def)

lemma delete_files_real:
  "under root ps \<Longrightarrow>
   \<exists>st'. fold_err (delete_file unlink root False) ps st = Inr st'
         \<and> deleted st' = deleted st + int (count_list (fst (outcomes unlink ps (world st))) True)
         \<and> world st' = snd (outcomes unlink ps (world st))
         \<and> removal_calls (trace st') = removal_calls (trace st) @ map Unlink ps
         \<and> error_lines (trace st')
             = error_lines (trace st) + count_list (fst (outcomes unlink ps (world st))) False"
proof (induction ps arbitrary: st)
  case Nil
  show ?case by simp
next
  case (Cons p ps)
  from Cons.prems have pre: "prefix root p" and rest: "under root ps"
    by (simp_all add: under_Cons)
  obtain r w' where prim: "unlink p (world st) = (r, w')" by (cases "unlink p (world st)")
  obtain st1 where step: "delete_file unlink root False p st = Inr st1"
    and st1: "deleted st1 = deleted st + (if r = None then 1 else 0)" "world st1 = w'"
      "removal_calls (trace st1) = removal_calls (trace st) @ [Unlink p]"
      "error_lines (trace st1) = error_lines (trace st) + (if r = None then 0 else 1)"
    using pre prim
    by (cases r) (auto simp: delete_file_def relative_to_def removal_calls_def error_lines_def)
  from Cons.IH[OF rest, of st1] obtain st' where
    ih: "fold_err (delete_file unlink root False) ps st1 = Inr st'"
      "deleted st' = deleted st1 + int (count_list (fst (outcomes unlink ps (world st1))) True)"
      "world st' = snd (outcomes unlink ps (world st1))"
      "removal_calls (trace st') = removal_calls (trace st1) @ map Unlink ps"
      "error_lines (trace st')
         = error_lines (trace st1) + count_list (fst (outcomes unlink ps (world st1))) False"
    by blast
  show ?case
    using step st1 ih prim
    by (intro exI[of _ st']) (auto split: prod.splits)
qed

lemma delete_directories_real:
  "under root ps \<Longrightarrow>
   \<exists>st'. fold_err (delete_directory rmtree root False) ps st = Inr st'
         \<and> deleted st' = deleted st + int (count_list (fst (outcomes rmtree ps (world st))) True)
         \<and> world st' = snd (outcomes rmtree ps (world st))
         \<and> removal_calls (trace st') = removal_calls (trace st) @ map Rmtree ps
         \<and> error_lines (trace st')
             = error_lines (trace st) + count_list (fst (outcomes rmtree ps (world st))) False"
proof (induction ps arbitrary: st)
  case Nil
  show ?case by simp
next
  case (Cons p ps)
  from Cons.prems have pre: "prefix root p" and rest: "under root ps"
    by (simp_all add: under_Cons)
  obtain r w' where prim: "rmtree p (world st) = (r, w')" by (cases "rmtree p (world st)")
  obtain st1 where step: "delete_directory rmtree root False p st = Inr st1"
    and st1: "deleted st1 = deleted st + (if r = None then 1 else 0)" "world st1 = w'"
      "removal_calls (trace st1) = removal_calls (trace st) @ [Rmtree p]"
      "error_lines (trace st1) = error_lines (trace st) + (if r = None then 0 else 1)"
    using pre prim
    by (cases r) (auto simp: delete_directory_def relative_to_def removal_calls_def error_lines_def)
  from Cons.IH[OF rest, of st1] obtain st' where
    ih: "fold_err (delete_directory rmtree root False) ps st1 = Inr st'"
      "deleted st' = deleted st1 + int (count_list (fst (outcomes rmtree ps (world st1))) True)"
      "world st' = snd (outcomes rmtree ps (world st1))"
      "removal_calls (trace st') = removal_calls (trace st1) @ map Rmtree ps"
      "error_lines (trace st')
         = error_lines (trace st1) + count_list (fst (outcomes rmtree ps (world st1))) False"
    by blast
  show ?case
    using step st1 ih prim
    by (intro exI[of _ st']) (auto split: prod.splits)
qed



lemma sorted_directories_mset: "mset (sorted_directories ds) = mset ds"
  by (simp add: sorted_directories_def)

lemma sorted_directories_under: "under root ds \<Longrightarrow> under root (sorted_directories ds)"
  by (simp add: under_def sorted_directories_def)

lemma sorted_directories_deepest_first:
  "sorted_wrt (\<lambda>a b. parts_len b \<le> parts_len a) (sorted_directories ds)"
proof -
  have "sorted (map (\<lambda>p. - int (parts_len p)) (sorted_directories ds))"
    by (simp add: sorted_directories_def)
  then show ?thesis by (simp add: sorted_wrt_map)
qed

fun removed_dir :: "event \<Rightarrow> path list" where
  "removed_dir (Rmtree p) = [p]"
| "removed_dir (Unlink p) = []"
| "removed_dir (Stdout s) = []"
| "removed_dir (Stderr s) = []"

text \<open>The directories whose removal was attempted, in the order of the attempts.\<close>

definition rmtree_paths :: "event list \<Rightarrow> path list" where
  "rmtree_paths tr = concat (map removed_dir tr)"

definition always_ok :: "'w removal" where
  "always_ok p w = (None, w)"

definition always_denied :: "'w removal" where
  "always_denied p w = (Some ''Permission denied'', w)"

lemma rmtree_paths_calls: "rmtree_paths (removal_calls tr) = rmtree_paths tr"
proof (induction tr)
  case Nil
  show ?case by (simp add: rmtree_paths_def removal_calls_def)
next
  case (Cons e tr)
  then show ?case by (cases e) (simp_all add: rmtree_paths_def removal_calls_def)
qed

lemma rmtree_paths_planned: "rmtree_paths (map Unlink fs @ map Rmtree ds) = ds"
proof -
  have a: "concat (map removed_dir (map Unlink fs)) = []" by (induction fs) simp_all
  have b: "concat (map removed_dir (map Rmtree ds)) = ds" by (induction ds) simp_all
  show ?thesis using a b by (simp add: rmtree_paths_def)
qed

lemma delete_items_real:
  assumes "under root files" and "under root dirs"
  shows "\<exists>tr. delete_items unlink rmtree files dirs root False w
            = Inr ((int (count_list (fst (outcomes unlink files w)) True),
                    int (count_list (fst (outcomes rmtree (sorted_directories dirs)
                                            (snd (outcomes unlink files w)))) True)),
                   snd (outcomes rmtree (sorted_directories dirs) (snd (outcomes unlink files w))),
                   tr)
          \<and> removal_calls tr = map Unlink files @ map Rmtree (sorted_directories dirs)
          \<and> error_lines tr
              = count_list (fst (outcomes unlink files w)) False
                + count_list (fst (outcomes rmtree (sorted_directories dirs)
                                     (snd (outcomes unlink files w)))) False"
proof -
  let ?st0 = "\<lparr>deleted = 0, world = w, trace = []\<rparr>"
  from delete_files_real[OF assms(1), of unlink ?st0] obtain st1 where
    f: "fold_err (delete_file unlink root False) files ?st0 = Inr st1"
       "deleted st1 = int (count_list (fst (outcomes unlink files w)) True)"
       "world st1 = snd (outcomes unlink files w)"
       "removal_calls (trace st1) = map Unlink files"
       "error_lines (trace st1) = count_list (fst (outcomes unlink files w)) False"
    by (auto simp: removal_calls_def error_lines_def)
  let ?st1' = "\<lparr>deleted = 0, world = world st1, trace = trace st1\<rparr>"
  from delete_directories_real[OF sorted_directories_under[OF assms(2)], of rmtree ?st1']
  obtain st2 where
    d: "fold_err (delete_directory rmtree root False) (sorted_directories dirs) ?st1' = Inr st2"
       "deleted st2 = int (count_list (fst (outcomes rmtree (sorted_directories dirs) (world st1))) True)"
       "world st2 = snd (outcomes rmtree (sorted_directories dirs) (world st1))"
       "removal_calls (trace st2) = removal_calls (trace st1) @ map Rmtree (sorted_directories dirs)"
       "error_lines (trace st2)
          = error_lines (trace st1)
            + count_list (fst (outcomes rmtree (sorted_directories dirs) (world st1))) False"
    by auto
  have "delete_items unlink rmtree files dirs root False w
        = Inr ((deleted st1, deleted st2), world st2, trace st2)"
    by (simp add: delete_items_def f(1) d(1))
  with f d show ?thesis by (intro exI[of _ "trace st2"]) simp
qed


text \<open>
  C4.  In a real run over paths below the root, the directories whose removal is
  attempted are the ignored directories, each once, and whenever one of them is deeper
  than another, its removal is attempted first.
\<close>

theorem delete_items_deepest_first:
  "under root files \<Longrightarrow> under root dirs \<Longrightarrow>
   \<exists>counts w' tr.
      delete_items unlink rmtree files dirs root False w = Inr (counts, w', tr)
      \<and> mset (rmtree_paths tr) = mset dirs
      \<and> (\<forall>i j. i < length (rmtree_paths tr) \<and> j < length (rmtree_paths tr)
                \<and> parts_len (rmtree_paths tr ! i) < parts_len (rmtree_paths tr ! j)
                \<longrightarrow> j < i)"
proof -
  assume u: "under root files" "under root dirs"
  from delete_items_real[OF u, of unlink rmtree w] obtain counts w' tr where
    run: "delete_items unlink rmtree files dirs root False w = Inr (counts, w', tr)"
    and calls: "removal_calls tr = map Unlink files @ map Rmtree (sorted_directories dirs)"
    by blast
  have paths: "rmtree_paths tr = sorted_directories dirs"
    using rmtree_paths_calls[of tr] calls by (simp add: rmtree_paths_planned)
  have order: "j < i"
    if "i < length (rmtree_paths tr)" "j < length (rmtree_paths tr)"
       "parts_len (rmtree_paths tr ! i) < parts_len (rmtree_paths tr ! j)" for i j
  proof (rule ccontr)
    assume "\<not> j < i"
    with that(3) have "i < j" by (cases "i = j") auto
    with sorted_directories_deepest_first[of dirs] that(2) paths
    have "parts_len (rmtree_paths tr ! j) \<le> parts_len (rmtree_paths tr ! i)"
      by (simp add: sorted_wrt_iff_nth_less)
    with that(3) show False by simp
  qed
  from run paths order show ?thesis
    by (intro exI[of _ counts] exI[of _ w'] exI[of _ tr]) (simp add: sorted_directories_mset)
qed

lemma sample_delete:
  "delete_items always_ok always_denied [[''proj'', ''app.log'']]
     [[''proj'', ''build''], [''proj'', ''sub'', ''deep'']] [''proj''] False ()
   = Inr ((1, 0), (),
          [Unlink [''proj'', ''app.log''], Stdout ''Deleted file: app.log'',
           Rmtree [''proj'', ''sub'', ''deep''],
           Stderr ''Error deleting sub/deep/: Permission denied'',
           Rmtree [''proj'', ''build''],
           Stderr ''Error deleting build/: Permission denied''])"
  by (simp add: delete_items_def delete_file_def delete_directory_def sorted_directories_def
        relative_to_def always_ok_def always_denied_def str_path_def parts_len_def)

theorem delete_items_deepest_first_witness:
  "under [''proj''] [[''proj'', ''app.log'']]
   \<and> under [''proj''] [[''proj'', ''build''], [''proj'', ''sub'', ''deep'']]
   \<and> (\<exists>counts w' tr.
        delete_items always_ok always_denied [[''proj'', ''app.log'']]
          [[''proj'', ''build''], [''proj'', ''sub'', ''deep'']] [''proj''] False ()
        = Inr (counts, w', tr)
        \<and> mset (rmtree_paths tr) = mset [[''proj'', ''build''], [''proj'', ''sub'', ''deep'']]
        \<and> (\<forall>i j. i < length (rmtree_paths tr) \<and> j < length (rmtree_paths tr)
                  \<and> parts_len (rmtree_paths tr ! i) < parts_len (rmtree_paths tr ! j)
                  \<longrightarrow> j < i))"
proof -
  have f: "under [''proj''] [[''proj'', ''app.log'']]" by (simp add: under_def)
  have d: "under [''proj''] [[''proj'', ''build''], [''proj'', ''sub'', ''deep'']]"
    by (simp add: under_def)
  from f d delete_items_deepest_first[OF f d, of always_ok always_denied "()"]
  show ?thesis by (intro conjI)
qed







section \<open>Properties of the entry point\<close>

text \<open>
  The three checks of \<^verbatim>\<open>main\<close>, in the order of the source: the target exists, it is a
  directory, and an ignore-rule file exists at its top level.  Each check passes, fails or
  raises; a check is made only when those before it have passed.
\<close>

definition precondition_holds :: "node \<Rightarrow> path \<Rightarrow> bool" where
  "precondition_holds fs root_directory =
     (path_exists fs root_directory = Inr True
      \<and> path_is_dir fs root_directory = Inr True
      \<and> path_exists fs (root_directory @ [''.gitignore'']) = Inr True)"










text \<open>A stretch of output is quiet: it holds no removal call and no line on the error stream.\<close>

definition quiet :: "event list \<Rightarrow> bool" where
  "quiet tr = (removal_calls tr = [] \<and> error_lines tr = 0)"









lemma find_ignored_files_under:
  assumes "wf_node fs" and "find_ignored_files from_lines fs root = Inr (files, dirs)"
  shows "under root files \<and> under root dirs"
proof -
  from find_ignored_files_cases[OF assms(2)] show ?thesis
  proof
    assume "files = [] \<and> dirs = []"
    then show ?thesis by (simp add: under_def)
  next
    assume "\<exists>specs. decision_pass root specs fs = Inr (files, dirs)"
    then obtain specs where dp: "decision_pass root specs fs = Inr (files, dirs)" by blast
    show ?thesis
    proof (cases "subtree fs root")
      case None
      with dp assms(1) show ?thesis by (simp add: decision_pass_eq under_def)
    next
      case (Some t)
      with dp assms(1) have res: "files = scan_files specs root root t"
        "dirs = scan_dirs specs root root t"
        by (simp_all add: decision_pass_eq)
      have "prefix root p" if "reached specs root root p" for p
        using that by (auto simp: reached_def)
      with res show ?thesis
        by (auto simp: under_def dest: scan_files_reached scan_dirs_reached)
    qed
  qed
qed

lemma display_lines_ok:
  "under root ps \<Longrightarrow> \<exists>out'. fold_err (display_line label ending root) ps out = Inr out'"
proof (induction ps arbitrary: out)
  case Nil
  show ?case by simp
next
  case (Cons p ps)
  then have "prefix root p" "under root ps" by (simp_all add: under_Cons)
  then show ?case
    using Cons.IH by (simp add: display_line_def relative_to_def)
qed

lemma under_sort: "under root ps \<Longrightarrow> under root (sort ps)"
  by (simp add: under_def)

lemma display_ignored_items_ok:
  assumes "under root files" and "under root dirs"
  shows "\<exists>out. display_ignored_items files dirs root = Inr out"
proof -
  have d: "\<exists>out'. fold_err (display_line l e root) (sort dirs) out = Inr out'" for l e out
    using under_sort[OF assms(2)] by (rule display_lines_ok)
  have f: "\<exists>out'. fold_err (display_line l e root) (sort files) out = Inr out'" for l e out
    using under_sort[OF assms(1)] by (rule display_lines_ok)
  show ?thesis
  proof (cases "dirs = []")
    case True
    show ?thesis
    proof (cases "files = []")
      case True
      with \<open>dirs = []\<close> show ?thesis by (simp add: display_ignored_items_def)
    next
      case False
      from f obtain out' where
        "fold_err (display_line ''  [FILE] '' [] root) (sort files)
           ([Stdout [], Stdout (''Found '' @ show_nat (length files + length dirs) @ '' ignored item(s):''),
             Stdout []] @ [Stdout [], Stdout ''Files:'']) = Inr out'"
        by blast
      with False \<open>dirs = []\<close> show ?thesis by (simp add: display_ignored_items_def)
    qed
  next
    case False
    from d obtain out1 where o1:
      "fold_err (display_line ''  [DIR]  '' ''/'' root) (sort dirs)
         [Stdout [], Stdout (''Found '' @ show_nat (length files + length dirs) @ '' ignored item(s):''),
          Stdout [], Stdout ''Directories:''] = Inr out1"
      by blast
    show ?thesis
    proof (cases "files = []")
      case True
      with False o1 show ?thesis by (simp add: display_ignored_items_def)
    next
      case nf: False
      from f obtain out2 where
        "fold_err (display_line ''  [FILE] '' [] root) (sort files)
           (out1 @ [Stdout [], Stdout ''Files:'']) = Inr out2"
        by blast
      with False nf o1 show ?thesis by (simp add: display_ignored_items_def)
    qed
  qed
qed








lemma main_untouched:
  assumes pre: "precondition_holds fs (args_directory a)"
    and wf: "wf_node fs"
    and found: "find_ignored_files from_lines fs (args_directory a) = Inr (fp, dp)"
    and quiet: "(fp = [] \<and> dp = []) \<or> args_dry_run a
                \<or> (\<not> args_yes a \<and> fst (confirm_deletion str_strip str_lower stdin) \<noteq> Inr True)"
  shows "fs_after (main unlink rmtree from_lines str_strip str_lower a stdin fs) = fs"
proof -
  from pre have pe: "path_exists fs (args_directory a) = Inr True"
    and pd: "path_is_dir fs (args_directory a) = Inr True"
    and pg: "path_exists fs (args_directory a @ [''.gitignore'']) = Inr True"
    by (simp_all add: precondition_holds_def)
  from find_ignored_files_under[OF wf found]
  have u: "under (args_directory a) fp" "under (args_directory a) dp" by simp_all
  from display_ignored_items_ok[OF u] obtain out2 where
    shown: "display_ignored_items fp dp (args_directory a) = Inr out2" by blast
  obtain r out3 where conf: "confirm_deletion str_strip str_lower stdin = (r, out3)"
    by (cases "confirm_deletion str_strip str_lower stdin")
  show ?thesis
    using quiet
    by (auto simp add: main_def Let_def pe pd pg found shown conf
          split: sum.splits prod.splits bool.splits)
qed




















end
